theory Spec2Isabelle
  imports Main "HOL-Library.Word"
begin

section \<open>JavaScript strings\<close>

text \<open>
  A JavaScript string is a sequence of UTF-16 code units. \<open>js\<close> turns an ASCII
  literal of the source into that sequence.
\<close>

type_synonym code_unit = "16 word"
type_synonym jsstring = "code_unit list"

definition js :: "string \<Rightarrow> jsstring" where
  "js s = map (\<lambda>c. of_nat (of_char c)) s"

text \<open>
  ECMAScript \<open>WhiteSpace\<close> (TAB, VT, FF, SP, NBSP, ZWNBSP and the category Zs) and
  \<open>LineTerminator\<close> (LF, CR, LS, PS). \<open>String.prototype.trim\<close> and the regular
  expression class \<open>\s\<close> both use the union of the two.
\<close>

definition isWhiteSpace :: "code_unit \<Rightarrow> bool" where
  "isWhiteSpace c \<longleftrightarrow>
     c = 0x0009 \<or> c = 0x000B \<or> c = 0x000C \<or> c = 0x0020 \<or> c = 0x00A0 \<or> c = 0x1680 \<or>
     (0x2000 \<le> c \<and> c \<le> 0x200A) \<or> c = 0x202F \<or> c = 0x205F \<or> c = 0x3000 \<or> c = 0xFEFF"

definition isLineTerminator :: "code_unit \<Rightarrow> bool" where
  "isLineTerminator c \<longleftrightarrow> c = 0x000A \<or> c = 0x000D \<or> c = 0x2028 \<or> c = 0x2029"

definition isSpace :: "code_unit \<Rightarrow> bool" where
  "isSpace c \<longleftrightarrow> isWhiteSpace c \<or> isLineTerminator c"

text \<open>\<open>str.trim()\<close>\<close>

definition trim :: "jsstring \<Rightarrow> jsstring" where
  "trim s = rev (dropWhile isSpace (rev (dropWhile isSpace s)))"

text \<open>\<open>a || b\<close> on strings: the empty string is the only falsy string.\<close>

definition or_else :: "jsstring \<Rightarrow> jsstring \<Rightarrow> jsstring" where
  "or_else a b = (if a = [] then b else a)"

section \<open>stringToBytes\<close>

text \<open>
  \<^verbatim>\<open>
  function stringToBytes(str) {
    const bytes = [];
    for (let i = 0; i < str.length; i++) {
      bytes.push(str.charCodeAt(i));
      bytes.push(0);
    }
    return bytes;
  }
  \<close>
  The same body in both variants of \<open>scripts/app.js\<close>. The elements of the result are
  JavaScript numbers; \<open>charCodeAt\<close> is only called inside the string.
\<close>

function stringToBytes_loop :: "jsstring \<Rightarrow> nat \<Rightarrow> nat list \<Rightarrow> nat list" where
  "stringToBytes_loop str i bytes =
     (if i < length str
      then stringToBytes_loop str (Suc i) ((bytes @ [unat (str ! i)]) @ [0])
      else bytes)"
  by pat_completeness auto
termination
  by (relation "measure (\<lambda>(str, i, bytes). length str - i)") auto

declare stringToBytes_loop.simps [simp del]

definition stringToBytes :: "jsstring \<Rightarrow> nat list" where
  "stringToBytes str = stringToBytes_loop str 0 []"

section \<open>The working state of the page\<close>

text \<open>
  The global \<open>currentKeywords\<close> and the two input elements the operations read and
  write: \<open>captionInput.value\<close> and \<open>newKeyword.value\<close>.
\<close>

record ui_state =
  captionInput :: jsstring
  currentKeywords :: "jsstring list"
  newKeyword :: jsstring

text \<open>
  The object \<open>{ caption, keywords }\<close>. Its second field is \<open>keywords_list\<close> here,
  \<open>keywords\<close> being a reserved word of Isabelle.
\<close>

record metadata =
  caption :: jsstring
  keywords_list :: "jsstring list"

text \<open>
  \<^verbatim>\<open>
  function addKeyword() {
    const kw = newKeyword.value.trim();
    if (kw && !currentKeywords.includes(kw)) {
      currentKeywords.push(kw);
      newKeyword.value = '';
      renderKeywords();
    }
  }
  \<close>
  The second variant has the same body with the last two statements swapped.
\<close>

definition addKeyword :: "ui_state \<Rightarrow> ui_state" where
  "addKeyword st =
     (let kw = trim (newKeyword st) in
      if kw \<noteq> [] \<and> kw \<notin> set (currentKeywords st)
      then st\<lparr>currentKeywords := currentKeywords st @ [kw], newKeyword := []\<rparr>
      else st)"

text \<open>
  \<open>Array.prototype.splice(start, deleteCount)\<close> with no inserted items: a negative
  start counts from the end, both arguments are clamped to the array.
\<close>

definition splice :: "'a list \<Rightarrow> int \<Rightarrow> int \<Rightarrow> 'a list" where
  "splice xs start deleteCount =
     (let len = int (length xs);
          actualStart = (if start < 0 then max (len + start) 0 else min start len);
          actualDeleteCount = min (max deleteCount 0) (len - actualStart)
      in take (nat actualStart) xs @ drop (nat (actualStart + actualDeleteCount)) xs)"

text \<open>
  The value of a code unit as a digit: 0 to 9 for the decimal digits, from 10 on for
  the letters of either case, and 36 for every other code unit, which is a digit of
  no radix.
\<close>

definition digit_value :: "code_unit \<Rightarrow> nat" where
  "digit_value c =
     (if 0x30 \<le> c \<and> c \<le> 0x39 then unat c - 48
      else if 0x61 \<le> c \<and> c \<le> 0x7A then unat c - 87
      else if 0x41 \<le> c \<and> c \<le> 0x5A then unat c - 55
      else 36)"

text \<open>
  \<open>parseInt(string)\<close> without a radix: white space is skipped, then a sign, then the
  prefix \<open>0x\<close> or \<open>0X\<close> (which makes the radix 16 instead of 10), and the digits
  that follow are read, up to the first code unit that is no digit of the radix;
  without a digit the result is \<open>NaN\<close>, here \<open>None\<close>. The number read is kept as
  an integer: \<open>splice\<close> clamps its start to the length of the array, so the rounding
  of a long numeral to a double makes no difference to it.
\<close>

definition parseInt :: "jsstring \<Rightarrow> int option" where
  "parseInt string =
     (let S = dropWhile isSpace string;
          sign = (if S \<noteq> [] \<and> hd S = 0x2D then - 1 else 1);
          S1 = (if S \<noteq> [] \<and> (hd S = 0x2B \<or> hd S = 0x2D) then tl S else S);
          hex = (take 2 S1 = js ''0x'' \<or> take 2 S1 = js ''0X'');
          R = (if hex then 16 else 10);
          S2 = (if hex then drop 2 S1 else S1);
          Z = takeWhile (\<lambda>c. digit_value c < R) S2
      in if Z = [] then None
         else Some (sign * int (foldl (\<lambda>a c. a * R + digit_value c) 0 Z)))"

text \<open>
  The click handler of \<open>renderKeywords\<close>, the same in both variants:
  \<^verbatim>\<open>(e) => { currentKeywords.splice(parseInt(e.target.dataset.index), 1); renderKeywords(); }\<close>
  Its argument here is \<open>e.target.dataset.index\<close>, the attribute \<open>data-index\<close> of
  the element that was clicked: \<open>None\<close> when that element has no such attribute, which
  is \<open>undefined\<close> and read by \<open>parseInt\<close> as the string \<open>undefined\<close>. \<open>splice\<close>
  takes the start \<open>NaN\<close> for 0.

  \<open>renderKeywords\<close> of the first variant builds the tag of the keyword \<open>kw\<close> at
  position \<open>i\<close> with
  \<^verbatim>\<open>tag.innerHTML = `${kw} <span class="delete-keyword" data-index="${i}">\<times></span>`\<close>
  and the second variant writes the same two parts, the keyword and the \<open>span\<close>, on
  lines of their own. So the \<open>span\<close> carries the decimal numeral of \<open>i\<close>, and the
  text of the keyword goes into the markup as it is. The first variant attaches the handler to
  \<open>tag.querySelector('.delete-keyword')\<close>, the first element of that class in the tag;
  the second variant attaches it to every element of that class in the document. Which
  element of a tag carries the handler is therefore decided by the markup the keyword
  makes, and is no part of the handler.
\<close>

definition deleteHandler :: "jsstring option \<Rightarrow> ui_state \<Rightarrow> ui_state" where
  "deleteHandler index st =
     st\<lparr>currentKeywords :=
          splice (currentKeywords st)
            (case parseInt (case index of None \<Rightarrow> js ''undefined'' | Some a \<Rightarrow> a) of
               None \<Rightarrow> 0
             | Some n \<Rightarrow> n)
            1\<rparr>"

section \<open>Regular expressions\<close>

text \<open>
  The patterns of \<open>parseApiResponse\<close> are built from literal characters, the
  classes \<open>\s\<close> and \<open>.\<close> under the quantifiers \<open>*\<close>, \<open>+\<close> and \<open>+?\<close>,
  groups, alternation and \<open>$\<close>, with the flag \<open>i\<close> and never \<open>m\<close>, \<open>s\<close> or
  \<open>u\<close>. A non-capturing group \<open>(?: ... )\<close> is only bracketing and has no constructor
  of its own.
\<close>

datatype cls = Space | Dot

datatype quant = Star | Plus | LazyPlus

datatype regex =
    Lit jsstring
  | Rep cls quant
  | Cat regex regex
  | Alt regex regex
  | Group nat regex
  | EndOfInput

text \<open>
  \<open>Canonicalize\<close> of the ECMAScript pattern semantics without the flag \<open>u\<close>: with
  \<open>ignoreCase\<close> a code unit is replaced by its upper case. Below 128 that is the ASCII
  upper case. A code unit from 128 on is mapped by the standard to a code unit from
  128 on again, so it never meets a literal of a pattern, all of which are ASCII;
  here it is left as it is.
\<close>

definition canonicalize :: "bool \<Rightarrow> code_unit \<Rightarrow> code_unit" where
  "canonicalize ignoreCase ch =
     (if ignoreCase \<and> 0x61 \<le> ch \<and> ch \<le> 0x7A then ch - 0x20 else ch)"

fun in_cls :: "cls \<Rightarrow> code_unit \<Rightarrow> bool" where
  "in_cls Space ch = isSpace ch"
| "in_cls Dot ch = (\<not> isLineTerminator ch)"

text \<open>
  Backtracking as a list of successes: each function returns what is left of the input
  after every way of matching, in the order in which the backtracking matcher tries
  them. A greedy quantifier tries the longest repetition first, a lazy one the shortest.
\<close>

fun one :: "(code_unit \<Rightarrow> bool) \<Rightarrow> jsstring \<Rightarrow> jsstring list" where
  "one p [] = []"
| "one p (x # xs) = (if p x then [xs] else [])"

fun rep_greedy :: "(code_unit \<Rightarrow> bool) \<Rightarrow> jsstring \<Rightarrow> jsstring list" where
  "rep_greedy p [] = [[]]"
| "rep_greedy p (x # xs) = (if p x then rep_greedy p xs @ [x # xs] else [x # xs])"

fun rep_lazy :: "(code_unit \<Rightarrow> bool) \<Rightarrow> jsstring \<Rightarrow> jsstring list" where
  "rep_lazy p [] = [[]]"
| "rep_lazy p (x # xs) = (x # xs) # (if p x then rep_lazy p xs else [])"

fun rep :: "quant \<Rightarrow> (code_unit \<Rightarrow> bool) \<Rightarrow> jsstring \<Rightarrow> jsstring list" where
  "rep Star p s = rep_greedy p s"
| "rep Plus p s = concat (map (rep_greedy p) (one p s))"
| "rep LazyPlus p s = concat (map (rep_lazy p) (one p s))"

text \<open>
  The state of a match is the rest of the input and the captures made so far (the latest
  first). No pattern of the source looks behind the current position. A group records
  the text its body has consumed, \<open>take (length s - length s') s\<close>.
\<close>

type_synonym captures = "(nat \<times> jsstring) list"

fun matches :: "bool \<Rightarrow> regex \<Rightarrow> jsstring \<times> captures \<Rightarrow> (jsstring \<times> captures) list" where
  "matches ic (Lit cs) (s, caps) =
     (if length cs \<le> length s \<and>
         map (canonicalize ic) (take (length cs) s) = map (canonicalize ic) cs
      then [(drop (length cs) s, caps)] else [])"
| "matches ic (Rep c q) (s, caps) = map (\<lambda>s'. (s', caps)) (rep q (in_cls c) s)"
| "matches ic (Cat r1 r2) st = concat (map (matches ic r2) (matches ic r1 st))"
| "matches ic (Alt r1 r2) st = matches ic r1 st @ matches ic r2 st"
| "matches ic (Group n r) (s, caps) =
     map (\<lambda>(s', caps'). (s', (n, take (length s - length s') s) # caps'))
         (matches ic r (s, caps))"
| "matches ic EndOfInput (s, caps) = (if s = [] then [(s, caps)] else [])"

text \<open>
  \<open>RegExp.prototype.exec\<close> for a pattern that is neither global nor sticky, which is
  what \<open>str.match(re)\<close> calls: the first start index, from 0 to the length of the
  string, at which the pattern matches, with the first match found there. The result
  is the index, the matched text and the captures.
\<close>

fun exec_from :: "bool \<Rightarrow> regex \<Rightarrow> nat \<Rightarrow> jsstring \<Rightarrow> (nat \<times> jsstring \<times> captures) option" where
  "exec_from ic r i s =
     (case matches ic r (s, []) of
        (s', caps) # _ \<Rightarrow> Some (i, take (length s - length s') s, caps)
      | [] \<Rightarrow> (case s of [] \<Rightarrow> None | _ # xs \<Rightarrow> exec_from ic r (Suc i) xs))"

definition match :: "bool \<Rightarrow> regex \<Rightarrow> jsstring \<Rightarrow> (nat \<times> jsstring \<times> captures) option" where
  "match ic r s = exec_from ic r 0 s"

text \<open>\<open>m[n]\<close> on a match result: \<open>undefined\<close> when group \<open>n\<close> took no part.\<close>

definition group :: "nat \<Rightarrow> nat \<times> jsstring \<times> captures \<Rightarrow> jsstring option" where
  "group n m = map_of (snd (snd m)) n"

text \<open>
  \<open>str.split(re)\<close>, that is \<open>RegExp.prototype[Symbol.split]\<close> without a limit, for a
  separator pattern without groups and without flags, as \<open>/\s*,\s*/\<close> is. \<open>piece\<close>
  is the text between the end \<open>p\<close> of the last separator and the position \<open>q\<close> under
  test, \<open>s\<close> the input from \<open>q\<close> on. The separator is tried at \<open>q\<close> only; one found
  there ends at \<open>e = q + n\<close>, and the standard steps over it when \<open>e = p\<close>. For the
  empty string the result is empty when the separator matches it, and the string
  itself otherwise.
\<close>

function split_loop :: "regex \<Rightarrow> jsstring \<Rightarrow> jsstring \<Rightarrow> jsstring list" where
  "split_loop sep piece [] = [piece]"
| "split_loop sep piece (x # xs) =
     (case matches False sep (x # xs, []) of
        [] \<Rightarrow> split_loop sep (piece @ [x]) xs
      | (s', _) # _ \<Rightarrow>
          (let n = length (x # xs) - length s' in
           if n = 0 \<and> piece = [] then split_loop sep (piece @ [x]) xs
           else piece # split_loop sep [] (drop n (x # xs))))"
  by pat_completeness auto
termination
  by (relation "measure (\<lambda>(sep, piece, s). 2 * length s + (if piece = [] then 0 else 1))")
     (auto split: if_splits)

declare split_loop.simps [simp del]

definition split_re :: "regex \<Rightarrow> jsstring \<Rightarrow> jsstring list" where
  "split_re sep s =
     (if s = [] then (if matches False sep (s, []) = [] then [s] else [])
      else split_loop sep [] s)"

text \<open>\<open>str.split(c)\<close> for a separator string of the one character \<open>c\<close>.\<close>

fun split_on :: "code_unit \<Rightarrow> jsstring \<Rightarrow> jsstring \<Rightarrow> jsstring list" where
  "split_on c piece [] = [piece]"
| "split_on c piece (x # xs) =
     (if x = c then piece # split_on c [] xs else split_on c (piece @ [x]) xs)"

definition split_str :: "code_unit \<Rightarrow> jsstring \<Rightarrow> jsstring list" where
  "split_str c s = split_on c [] s"

section \<open>parseApiResponse\<close>

text \<open>
  First variant:
  \<^verbatim>\<open>
  function parseApiResponse(content) {
    const caption = content.match(/CAPTION:\s*(.+?)(?:\s*\||$)/i)?.[1]?.trim() || 'No caption';
    const keywords = content.match(/KEYWORDS:\s*(.+)/i)?.[1]?.split(/\s*,\s*/) || [];
    return { caption, keywords };
  }
  \<close>
  The argument is the reply text, a string.
\<close>

definition caption_re_A :: regex where
  "caption_re_A =
     Cat (Lit (js ''CAPTION:'')) (Cat (Rep Space Star) (Cat (Group 1 (Rep Dot LazyPlus))
       (Alt (Cat (Rep Space Star) (Lit (js ''|''))) EndOfInput)))"

definition keywords_re_A :: regex where
  "keywords_re_A =
     Cat (Lit (js ''KEYWORDS:'')) (Cat (Rep Space Star) (Group 1 (Rep Dot Plus)))"

definition comma_re :: regex where
  "comma_re = Cat (Rep Space Star) (Cat (Lit (js '','')) (Rep Space Star))"

definition parseApiResponse_A :: "jsstring \<Rightarrow> metadata" where
  "parseApiResponse_A content =
     \<lparr>caption =
        (case map_option trim (Option.bind (match True caption_re_A content) (group 1)) of
           None \<Rightarrow> js ''No caption''
         | Some c \<Rightarrow> or_else c (js ''No caption'')),
      keywords_list =
        (case map_option (split_re comma_re)
                (Option.bind (match True keywords_re_A content) (group 1)) of
           None \<Rightarrow> []
         | Some ks \<Rightarrow> ks)\<rparr>"

text \<open>
  Second variant:
  \<^verbatim>\<open>
  function parseApiResponse(content) {
      const captionMatch = content.match(/CAPTION:\s*(.+?)\s*(\||$)/i);
      const keywordsMatch = content.match(/KEYWORDS:\s*(.+?)\s*$/i);
      return {
          caption: captionMatch?.[1]?.trim() || 'No caption generated',
          keywords: keywordsMatch?.[1]?.split(',').map(k => k.trim()).filter(k => k) || []
      };
  }
  \<close>
\<close>

definition caption_re_B :: regex where
  "caption_re_B =
     Cat (Lit (js ''CAPTION:'')) (Cat (Rep Space Star) (Cat (Group 1 (Rep Dot LazyPlus))
       (Cat (Rep Space Star) (Group 2 (Alt (Lit (js ''|'')) EndOfInput)))))"

definition keywords_re_B :: regex where
  "keywords_re_B =
     Cat (Lit (js ''KEYWORDS:'')) (Cat (Rep Space Star) (Cat (Group 1 (Rep Dot LazyPlus))
       (Cat (Rep Space Star) EndOfInput)))"

definition parseApiResponse_B :: "jsstring \<Rightarrow> metadata" where
  "parseApiResponse_B content =
     \<lparr>caption =
        (case map_option trim (Option.bind (match True caption_re_B content) (group 1)) of
           None \<Rightarrow> js ''No caption generated''
         | Some c \<Rightarrow> or_else c (js ''No caption generated'')),
      keywords_list =
        (case map_option (\<lambda>k. filter (\<lambda>k. k \<noteq> []) (map trim (split_str 0x2C k)))
                (Option.bind (match True keywords_re_B content) (group 1)) of
           None \<Rightarrow> []
         | Some ks \<Rightarrow> ks)\<rparr>"

text \<open>
  The markers in the statements below. A text spells a marker in some letter case when
  each of its code units is the marker's own or, where that is a capital letter, the
  small letter for it.
\<close>

abbreviation any_case :: "jsstring \<Rightarrow> jsstring \<Rightarrow> bool" where
  "any_case m marker \<equiv>
     list_all2 (\<lambda>x u. x = u \<or> (0x41 \<le> u \<and> u \<le> 0x5A \<and> x = u + 0x20)) m marker"

section \<open>displayMetadata and the run of analyzeImage\<close>

text \<open>
  \<open>[...new Set(xs)]\<close>: a \<open>Set\<close> keeps its elements in the order in which they were
  first added, and adding an element it already has (strings are compared exactly)
  changes nothing.
\<close>

definition set_add :: "'a list \<Rightarrow> 'a \<Rightarrow> 'a list" where
  "set_add s x = (if x \<in> set s then s else s @ [x])"

definition new_Set :: "'a list \<Rightarrow> 'a list" where
  "new_Set xs = foldl set_add [] xs"

text \<open>
  First variant; \<open>slice(0, 20)\<close> is \<open>take 20\<close>:
  \<^verbatim>\<open>
  function displayMetadata(data) {
    captionInput.value = data.caption;
    currentKeywords = [...new Set(data.keywords)].slice(0, 20);
    renderKeywords();
  }
  \<close>
\<close>

definition displayMetadata_A :: "metadata \<Rightarrow> ui_state \<Rightarrow> ui_state" where
  "displayMetadata_A data st =
     st\<lparr>captionInput := caption data,
        currentKeywords := take 20 (new_Set (keywords_list data))\<rparr>"

text \<open>
  Second variant:
  \<^verbatim>\<open>
  function displayMetadata(existingData, generatedData) {
      captionInput.value = generatedData.caption || existingData.caption;
      currentKeywords = [...new Set([
          ...existingData.keywords,
          ...generatedData.keywords
      ])].slice(0, 25); // Limit to 25 keywords
      renderKeywords();
  }
  \<close>
\<close>

definition displayMetadata_B :: "metadata \<Rightarrow> metadata \<Rightarrow> ui_state \<Rightarrow> ui_state" where
  "displayMetadata_B existingData generatedData st =
     st\<lparr>captionInput := or_else (caption generatedData) (caption existingData),
        currentKeywords :=
          take 25 (new_Set (keywords_list existingData @ keywords_list generatedData))\<rparr>"

text \<open>
  The run of \<open>analyzeImage\<close> in which nothing throws, from the metadata read from the
  image and the text of the model's reply. The first variant hands the existing
  metadata to the request only:
  \<^verbatim>\<open>
  const generated = await generateMetadata(originalFile, { caption: ..., keywords: ... });
  displayMetadata(generated);
  \<close>
  and the second one to the display as well:
  \<^verbatim>\<open>
  const iptcData = await extractIptcData(originalArrayBuffer);
  const generatedData = await generateMetadata(originalFile, iptcData);
  displayMetadata(iptcData, generatedData);
  \<close>
  where \<open>generateMetadata\<close> returns \<open>parseApiResponse\<close> of the reply.
\<close>

definition analyzeImage_A :: "metadata \<Rightarrow> jsstring \<Rightarrow> ui_state \<Rightarrow> ui_state" where
  "analyzeImage_A existing reply st = displayMetadata_A (parseApiResponse_A reply) st"

definition analyzeImage_B :: "metadata \<Rightarrow> jsstring \<Rightarrow> ui_state \<Rightarrow> ui_state" where
  "analyzeImage_B existing reply st = displayMetadata_B existing (parseApiResponse_B reply) st"

section \<open>The keyword fields written by saveAndDownload\<close>

text \<open>
  The fields are given as the list of assignments \<open>exifObj['iptc'][Keywords + k] = v\<close>
  in the order in which they are made, each as the pair \<open>(k, v)\<close>. First variant:
  \<^verbatim>\<open>
  currentKeywords.slice(0, 20).forEach((kw, i) => {
    exifObj['iptc'][piexif.IptcIFD.Keywords + i] = kw.substring(0, 64);
  });
  \<close>
\<close>

definition keyword_fields_A :: "jsstring list \<Rightarrow> (nat \<times> jsstring) list" where
  "keyword_fields_A ks = map (\<lambda>(i, kw). (i, take 64 kw)) (enumerate 0 (take 20 ks))"

text \<open>\<open>chunk.join(',')\<close>\<close>

fun join :: "jsstring \<Rightarrow> jsstring list \<Rightarrow> jsstring" where
  "join sep [] = []"
| "join sep [x] = x"
| "join sep (x # y # ys) = x @ sep @ join sep (y # ys)"

text \<open>
  Second variant:
  \<^verbatim>\<open>
  const maxKeywordsPerTag = 16;
  for (let i = 0; i < currentKeywords.length; i += maxKeywordsPerTag) {
      const chunk = currentKeywords.slice(i, i + maxKeywordsPerTag);
      exifObj['iptc'][piexif.IptcIFD.Keywords + i/maxKeywordsPerTag] = chunk.join(',');
  }
  \<close>
  \<open>i\<close> is a multiple of 16 throughout, so \<open>i/maxKeywordsPerTag\<close> is a whole number.
\<close>

function keyword_fields_B_loop :: "jsstring list \<Rightarrow> nat \<Rightarrow> (nat \<times> jsstring) list" where
  "keyword_fields_B_loop ks i =
     (if i < length ks
      then (i div 16, join (js '','') (take 16 (drop i ks))) # keyword_fields_B_loop ks (i + 16)
      else [])"
  by pat_completeness auto
termination
  by (relation "measure (\<lambda>(ks, i). length ks - i)") auto

declare keyword_fields_B_loop.simps [simp del]

definition keyword_fields_B :: "jsstring list \<Rightarrow> (nat \<times> jsstring) list" where
  "keyword_fields_B ks = keyword_fields_B_loop ks 0"

section \<open>The relay\<close>

text \<open>
  What the handler of \<open>POST /api/generate-caption\<close> sees of the upstream call: the
  \<open>fetch\<close> promise rejects with an error (a network failure, or the abort of the
  15 second timer where there is one), or it resolves with a status, after which
  reading the body either fails or gives its text. An error has a name and a message.
\<close>

record js_error =
  name :: jsstring
  message :: jsstring

datatype upstream =
    Rejected js_error
  | Resolved nat "js_error + jsstring"

text \<open>
  The reply of the relay: its status and either the JSON value handed to \<open>res.json\<close>
  or the object \<open>{ error: msg }\<close>.
\<close>

datatype 'j body = Json 'j | ErrorObject jsstring

type_synonym 'j reply = "nat \<times> 'j body"

text \<open>\<open>response.ok\<close>\<close>

definition ok :: "nat \<Rightarrow> bool" where
  "ok status \<longleftrightarrow> 200 \<le> status \<and> status \<le> 299"

text \<open>A status number inside a template literal: its decimal digits.\<close>

fun digits :: "nat \<Rightarrow> jsstring" where
  "digits n = (if n < 10 then [of_nat (48 + n)] else digits (n div 10) @ [of_nat (48 + n mod 10)])"

declare digits.simps [simp del]

text \<open>
  \<open>server.js\<close>. The parameter \<open>parse\<close> stands for the JSON parser, which throws on a
  text that is not JSON.
  \<^verbatim>\<open>
  try {
    const response = await fetch(...);
    if (!response.ok) {
      const error = await response.text();
      throw new Error(`API error: ${response.status} - ${error}`);
    }
    res.json(await response.json());
  } catch (error) {
    res.status(500).json({ error: error.message });
  }
  \<close>
\<close>

definition catch_A :: "js_error \<Rightarrow> 'j reply" where
  "catch_A e = (500, ErrorObject (message e))"

definition relay_A :: "(jsstring \<Rightarrow> js_error + 'j) \<Rightarrow> upstream \<Rightarrow> 'j reply" where
  "relay_A parse up =
     (case up of
        Rejected e \<Rightarrow> catch_A e
      | Resolved status read \<Rightarrow>
          if \<not> ok status then
            (case read of
               Inl e \<Rightarrow> catch_A e
             | Inr error \<Rightarrow>
                 catch_A \<lparr>name = js ''Error'',
                          message = js ''API error: '' @ digits status @ js '' - '' @ error\<rparr>)
          else
            (case read of
               Inl e \<Rightarrow> catch_A e
             | Inr text \<Rightarrow> (case parse text of Inl e \<Rightarrow> catch_A e | Inr v \<Rightarrow> (200, Json v))))"

text \<open>
  The second relay (\<open>unnamed/part_000\<close>), with the timer:
  \<^verbatim>\<open>
  try {
    const controller = new AbortController();
    const timeout = setTimeout(() => controller.abort(), 15000);
    const response = await fetch(..., { ..., signal: controller.signal });
    clearTimeout(timeout);
    const responseText = await response.text();
    if (!response.ok) {
      console.error('API Error:', response.status, responseText);
      return res.status(502).json({ error: `Upstream error: ${response.status}` });
    }
    res.json(JSON.parse(responseText));
  } catch (error) {
    console.error('Server error:', error);
    res.status(500).json({
      error: error.name === 'AbortError' ? 'Request timeout' : error.message
    });
  }
  \<close>
\<close>

definition catch_B :: "js_error \<Rightarrow> 'j reply" where
  "catch_B e =
     (500, ErrorObject (if name e = js ''AbortError'' then js ''Request timeout'' else message e))"

definition relay_B :: "(jsstring \<Rightarrow> js_error + 'j) \<Rightarrow> upstream \<Rightarrow> 'j reply" where
  "relay_B parse up =
     (case up of
        Rejected e \<Rightarrow> catch_B e
      | Resolved status read \<Rightarrow>
          (case read of
             Inl e \<Rightarrow> catch_B e
           | Inr responseText \<Rightarrow>
               if \<not> ok status then (502, ErrorObject (js ''Upstream error: '' @ digits status))
               else (case parse responseText of Inl e \<Rightarrow> catch_B e | Inr v \<Rightarrow> (200, Json v))))"

section \<open>Properties\<close>

subsection \<open>stringToBytes\<close>

lemma stringToBytes_loop_append:
  "stringToBytes_loop str i bytes
     = bytes @ concat (map (\<lambda>c. [unat c, 0]) (drop i str))"
proof (induction str i bytes rule: stringToBytes_loop.induct)
  case (1 str i bytes)
  show ?case
  proof (cases "i < length str")
    case True
    then have "drop i str = str ! i # drop (Suc i) str"
      by (simp add: Cons_nth_drop_Suc)
    with True "1.IH" show ?thesis
      by (subst stringToBytes_loop.simps) simp
  next
    case False
    then show ?thesis
      by (subst stringToBytes_loop.simps) simp
  qed
qed

lemma stringToBytes_concat:
  "stringToBytes str = concat (map (\<lambda>c. [unat c, 0]) str)"
  by (simp add: stringToBytes_def stringToBytes_loop_append)

lemma length_pairs: "length (concat (map (\<lambda>c. [f c, z]) xs)) = 2 * length xs"
  by (induction xs) auto

lemma nth_pairs_even:
  "i < length xs \<Longrightarrow> concat (map (\<lambda>c. [f c, z]) xs) ! (2 * i) = f (xs ! i)"
proof (induction xs arbitrary: i)
  case Nil
  then show ?case by simp
next
  case (Cons x xs)
  then show ?case by (cases i) auto
qed

lemma nth_pairs_odd:
  "i < length xs \<Longrightarrow> concat (map (\<lambda>c. [f c, z]) xs) ! Suc (2 * i) = z"
proof (induction xs arbitrary: i)
  case Nil
  then show ?case by simp
next
  case (Cons x xs)
  then show ?case by (cases i) auto
qed

text \<open>
  C10. For a string of \<open>n\<close> code units \<open>stringToBytes\<close> returns \<open>2 * n\<close> numbers;
  the one at position \<open>2 * i\<close> is the code unit at index \<open>i\<close> of the string and the
  one at every odd position \<open>2 * i + 1\<close> is 0.
\<close>

theorem stringToBytes_layout:
  "length (stringToBytes s) = 2 * length s \<and>
   (\<forall>i < length s. stringToBytes s ! (2 * i) = unat (s ! i) \<and>
                   stringToBytes s ! (2 * i + 1) = 0)"
  by (simp add: stringToBytes_concat length_pairs nth_pairs_even nth_pairs_odd)

theorem stringToBytes_layout_witness:
  "length (stringToBytes [0x48, 0x69]) = 4 \<and>
   stringToBytes [0x48, 0x69] ! 0 = 72 \<and> stringToBytes [0x48, 0x69] ! 1 = 0 \<and>
   stringToBytes [0x48, 0x69] ! 2 = 105 \<and> stringToBytes [0x48, 0x69] ! 3 = 0"
proof -
  have el: "\<forall>i < 2. stringToBytes [0x48, 0x69] ! (2 * i) = unat ([0x48, 0x69 :: code_unit] ! i) \<and>
                  stringToBytes [0x48, 0x69] ! (2 * i + 1) = 0"
    and len: "length (stringToBytes [0x48, 0x69]) = 4"
    using stringToBytes_layout [of "[0x48, 0x69]"] by simp_all
  have e0: "stringToBytes [0x48, 0x69] ! 0 = 72 \<and> stringToBytes [0x48, 0x69] ! 1 = 0"
    using el [rule_format, of 0] by simp
  have e1: "stringToBytes [0x48, 0x69] ! 2 = 105 \<and> stringToBytes [0x48, 0x69] ! 3 = 0"
    using el [rule_format, of 1] by simp
  from len e0 e1 show ?thesis by blast
qed

subsection \<open>Adding and removing keywords\<close>

lemma dropWhile_rev_Nil: "rev (dropWhile P (rev (dropWhile P s))) = [] \<longleftrightarrow> (\<forall>c \<in> set s. P c)"
proof -
  have "dropWhile P (rev (dropWhile P s)) = [] \<longleftrightarrow> (\<forall>x \<in> set (dropWhile P s). P x)"
    by (simp add: dropWhile_eq_Nil_conv)
  also have "\<dots> \<longleftrightarrow> dropWhile P s = []"
    by (metis dropWhile_eq_Nil_conv dropWhile_idem)
  also have "\<dots> \<longleftrightarrow> (\<forall>c \<in> set s. P c)"
    by (simp add: dropWhile_eq_Nil_conv)
  finally show ?thesis by simp
qed

lemma trim_Nil_iff: "trim s = [] \<longleftrightarrow> (\<forall>c \<in> set s. isSpace c)"
  unfolding trim_def by (rule dropWhile_rev_Nil)

text \<open>
  C7. \<open>addKeyword\<close> leaves the keyword list as it is when the trimmed candidate is
  already in it (exact comparison of the code units) and when the candidate is empty
  or consists of white space only; in every other case it appends the trimmed
  candidate, and nothing else.
\<close>

theorem addKeyword_effect:
  "(trim (newKeyword st) \<in> set (currentKeywords st) \<longrightarrow>
      currentKeywords (addKeyword st) = currentKeywords st) \<and>
   ((\<forall>c \<in> set (newKeyword st). isSpace c) \<longrightarrow>
      currentKeywords (addKeyword st) = currentKeywords st) \<and>
   (trim (newKeyword st) \<notin> set (currentKeywords st) \<and> \<not> (\<forall>c \<in> set (newKeyword st). isSpace c) \<longrightarrow>
      currentKeywords (addKeyword st) = currentKeywords st @ [trim (newKeyword st)])"
  by (simp add: addKeyword_def Let_def trim_Nil_iff [symmetric])

lemma splice_one:
  "i < length xs \<Longrightarrow> splice xs (int i) 1 = take i xs @ drop (Suc i) xs"
  by (simp add: splice_def Let_def min_def max_def nat_add_distrib)

lemma digit_char:
  assumes "d < 10"
  shows "0x30 \<le> (of_nat (48 + d) :: code_unit)" "(of_nat (48 + d) :: code_unit) \<le> 0x39"
    "unat (of_nat (48 + d) :: code_unit) = 48 + d"
proof -
  have "unat (of_nat (48 + d) :: code_unit) = (48 + d) mod 2 ^ LENGTH(16)"
    by (rule unat_of_nat)
  with assms show u: "unat (of_nat (48 + d) :: code_unit) = 48 + d" by simp
  show "0x30 \<le> (of_nat (48 + d) :: code_unit)" "(of_nat (48 + d) :: code_unit) \<le> 0x39"
    using assms u by (simp_all add: word_le_nat_alt)
qed

lemma digits_decimal: "\<forall>c \<in> set (digits n). 0x30 \<le> c \<and> c \<le> 0x39"
proof (induction n rule: digits.induct)
  case (1 n)
  show ?case
  proof (cases "n < 10")
    case True
    then show ?thesis using digit_char(1,2) [of n] by (subst digits.simps) simp
  next
    case False
    have "n mod 10 < 10" by simp
    from digit_char(1,2) [OF this] False "1.IH" show ?thesis
      by (subst digits.simps) simp
  qed
qed

lemma digits_nonempty: "digits n \<noteq> []"
  by (subst digits.simps) simp

lemma decimal_value: "0x30 \<le> c \<Longrightarrow> c \<le> 0x39 \<Longrightarrow> digit_value c < 10"
  unfolding digit_value_def by (simp add: word_le_nat_alt)

lemma digits_value: "foldl (\<lambda>a c. a * 10 + digit_value c) 0 (digits n) = n"
proof (induction n rule: digits.induct)
  case (1 n)
  have v: "digit_value (of_nat (48 + d) :: code_unit) = d" if "d < 10" for d
    using digit_char [OF that] by (simp add: digit_value_def)
  show ?case
  proof (cases "n < 10")
    case True
    then show ?thesis using v [of n] by (subst digits.simps) simp
  next
    case False
    have "n mod 10 < 10" by simp
    from v [OF this] False "1.IH" show ?thesis
      by (subst digits.simps) simp
  qed
qed

lemma decimal_plain:
  assumes "0x30 \<le> c" "c \<le> 0x39"
  shows "\<not> isSpace c" "c \<noteq> 0x2B" "c \<noteq> 0x2D" "c \<noteq> 0x78" "c \<noteq> 0x58"
  using assms unfolding isSpace_def isWhiteSpace_def isLineTerminator_def
  by (auto simp: word_le_nat_alt)

lemma parseInt_digits: "parseInt (digits n) = Some (int n)"
proof -
  let ?s = "digits n"
  have dec: "\<forall>c \<in> set ?s. 0x30 \<le> c \<and> c \<le> 0x39" by (rule digits_decimal)
  have ne: "?s \<noteq> []" by (rule digits_nonempty)
  then have hd: "hd ?s \<in> set ?s" by simp
  with dec decimal_plain have h: "\<not> isSpace (hd ?s)" "hd ?s \<noteq> 0x2B" "hd ?s \<noteq> 0x2D" by blast+
  from h(1) have 1: "dropWhile isSpace ?s = ?s" by (simp add: dropWhile_eq_self_iff)
  have nohex: "take 2 ?s \<noteq> js ''0x''" "take 2 ?s \<noteq> js ''0X''"
  proof -
    have "0x78 \<notin> set ?s" "0x58 \<notin> set ?s" using dec decimal_plain(4,5) by blast+
    then have "0x78 \<notin> set (take 2 ?s)" "0x58 \<notin> set (take 2 ?s)"
      by (meson in_set_takeD)+
    then show "take 2 ?s \<noteq> js ''0x''" "take 2 ?s \<noteq> js ''0X''"
      by (auto simp: js_def)
  qed
  have all: "takeWhile (\<lambda>c. digit_value c < 10) ?s = ?s"
    using dec decimal_value by (simp add: takeWhile_eq_all_conv)
  show ?thesis
    unfolding parseInt_def Let_def 1 using ne h nohex by (simp add: all digits_value)
qed

lemma deleteHandler_at:
  "i < length (currentKeywords st) \<Longrightarrow>
     currentKeywords (deleteHandler (Some (digits i)) st)
       = take i (currentKeywords st) @ drop (Suc i) (currentKeywords st)"
  by (simp add: deleteHandler_def parseInt_digits splice_one)

lemma parseInt_undefined: "parseInt (js ''undefined'') = None"
  by (simp add: parseInt_def js_def digit_value_def isSpace_def isWhiteSpace_def
      isLineTerminator_def)

text \<open>
  C8. Run with the \<open>data-index\<close> that \<open>renderKeywords\<close> writes for a valid position
  \<open>i\<close>, the click handler removes exactly the keyword at \<open>i\<close>: the keywords before
  it stay where they are and each later one moves down by one. Run from an element
  without \<open>data-index\<close>, it removes the first keyword of the list. The first variant
  reaches the second case: it attaches the handler to the first element of class
  \<open>delete-keyword\<close> in the tag, and for the keyword
  \<open><b class=delete-keyword>x</b>\<close> that is the element made by the keyword's own
  text, while the \<open>span\<close> with the \<open>data-index\<close> is left without a handler. In
  the list \<open>["a", "<b class=delete-keyword>x</b>", "c"]\<close> the handler run with
  the index 1 leaves \<open>["a", "c"]\<close>; the handler as it is attached to the second tag
  removes \<open>"a"\<close>.
\<close>

theorem delete_handler_effect:
  "(i < length (currentKeywords st) \<longrightarrow>
      currentKeywords (deleteHandler (Some (digits i)) st)
        = take i (currentKeywords st) @ drop (Suc i) (currentKeywords st)) \<and>
   currentKeywords (deleteHandler None st) = drop 1 (currentKeywords st)"
proof (intro conjI impI)
  show "currentKeywords (deleteHandler (Some (digits i)) st)
      = take i (currentKeywords st) @ drop (Suc i) (currentKeywords st)"
    if "i < length (currentKeywords st)"
    using that by (rule deleteHandler_at)
  show "currentKeywords (deleteHandler None st) = drop 1 (currentKeywords st)"
    by (simp add: deleteHandler_def parseInt_undefined splice_def Let_def min_def max_def)
qed

theorem delete_handler_effect_witness:
  "currentKeywords (deleteHandler (Some (js ''1''))
      \<lparr>captionInput = [],
       currentKeywords = [js ''a'', js ''<b class=delete-keyword>x</b>'', js ''c''],
       newKeyword = []\<rparr>) = [js ''a'', js ''c''] \<and>
   currentKeywords (deleteHandler None
      \<lparr>captionInput = [],
       currentKeywords = [js ''a'', js ''<b class=delete-keyword>x</b>'', js ''c''],
       newKeyword = []\<rparr>) = [js ''<b class=delete-keyword>x</b>'', js ''c'']"
proof -
  have d: "digits 1 = js ''1''" by (simp add: digits.simps js_def)
  note t = delete_handler_effect [where i = 1 and st =
      "\<lparr>captionInput = [],
       currentKeywords = [js ''a'', js ''<b class=delete-keyword>x</b>'', js ''c''],
       newKeyword = []\<rparr>"]
  from t [THEN conjunct1] t [THEN conjunct2] show ?thesis
    unfolding d by simp
qed

theorem addKeyword_effect_witness:
  "currentKeywords (addKeyword \<lparr>captionInput = [], currentKeywords = [js ''a''], newKeyword = js '' b ''\<rparr>) = [js ''a'', js ''b''] \<and>
   currentKeywords (addKeyword \<lparr>captionInput = [], currentKeywords = [js ''a''], newKeyword = js '' a''\<rparr>) = [js ''a''] \<and>
   currentKeywords (addKeyword \<lparr>captionInput = [], currentKeywords = [js ''a''], newKeyword = js ''  ''\<rparr>) = [js ''a'']"
proof -
  have t1: "trim (js '' b '') = js ''b''" and t2: "trim (js '' a'') = js ''a''"
    by (simp_all add: trim_def js_def isSpace_def isWhiteSpace_def isLineTerminator_def)
  have s3: "\<forall>c \<in> set (js ''  ''). isSpace c" and n1: "\<not> (\<forall>c \<in> set (js '' b ''). isSpace c)"
    by (simp_all add: js_def isSpace_def isWhiteSpace_def isLineTerminator_def)
  have ne: "js ''b'' \<noteq> js ''a''" by (simp add: js_def)
  show ?thesis
    using addKeyword_effect [of "\<lparr>captionInput = [], currentKeywords = [js ''a''], newKeyword = js '' b ''\<rparr>"]
      addKeyword_effect [of "\<lparr>captionInput = [], currentKeywords = [js ''a''], newKeyword = js '' a''\<rparr>"]
      addKeyword_effect [of "\<lparr>captionInput = [], currentKeywords = [js ''a''], newKeyword = js ''  ''\<rparr>"]
      t1 t2 s3 n1 ne
    by simp
qed

subsection \<open>Sets of keywords\<close>

lemma foldl_set_add_distinct:
  "distinct acc \<Longrightarrow> distinct (foldl set_add acc xs)"
  by (induction xs arbitrary: acc) (auto simp: set_add_def)

lemma foldl_set_add_set:
  "set (foldl set_add acc xs) = set acc \<union> set xs"
  by (induction xs arbitrary: acc) (auto simp: set_add_def)

lemma foldl_set_add_known:
  "set xs \<subseteq> set acc \<Longrightarrow> foldl set_add acc xs = acc"
  by (induction xs arbitrary: acc) (auto simp: set_add_def)

lemma foldl_set_add_fresh:
  "distinct (acc @ xs) \<Longrightarrow> foldl set_add acc xs = acc @ xs"
proof (induction xs arbitrary: acc)
  case Nil
  then show ?case by simp
next
  case (Cons x xs)
  from Cons.prems have "x \<notin> set acc" and "distinct ((acc @ [x]) @ xs)" by auto
  with Cons.IH [of "acc @ [x]"] show ?case by (simp add: set_add_def)
qed

lemma distinct_new_Set: "distinct (new_Set xs)"
  by (simp add: new_Set_def foldl_set_add_distinct)

lemma set_new_Set: "set (new_Set xs) = set xs"
  by (simp add: new_Set_def foldl_set_add_set)

lemma new_Set_distinct_id: "distinct xs \<Longrightarrow> new_Set xs = xs"
  using foldl_set_add_fresh [of "[]" xs] by (simp add: new_Set_def)

lemma new_Set_twice: "new_Set (xs @ xs) = new_Set xs"
proof -
  have "new_Set (xs @ xs) = foldl set_add (new_Set xs) xs"
    by (simp add: new_Set_def)
  also have "\<dots> = new_Set xs"
    by (rule foldl_set_add_known) (simp add: set_new_Set)
  finally show ?thesis .
qed

lemma distinct_take_drop:
  assumes "distinct xs" and "a \<le> b"
  shows "distinct (take a xs @ drop b xs)"
proof -
  have "distinct (take a xs @ drop a xs)" using assms(1) by simp
  moreover have "set (drop b xs) \<subseteq> set (drop a xs)"
    using assms(2) by (simp add: set_drop_subset_set_drop)
  ultimately show ?thesis using assms(1) by (auto simp del: append_take_drop_id)
qed

lemma distinct_splice: "distinct xs \<Longrightarrow> distinct (splice xs start n)"
  unfolding splice_def Let_def
  by (rule distinct_take_drop) (auto simp: min_def max_def)

lemma distinct_addKeyword:
  "distinct (currentKeywords st) \<Longrightarrow> distinct (currentKeywords (addKeyword st))"
  by (simp add: addKeyword_def Let_def)

lemma distinct_deleteHandler:
  "distinct (currentKeywords st) \<Longrightarrow> distinct (currentKeywords (deleteHandler a st))"
  by (simp add: deleteHandler_def distinct_splice)

lemma map_snd_enumerate: "map snd (enumerate n xs) = xs"
  by (simp add: enumerate_eq_zip)

lemma keyword_fields_A_values:
  "map snd (keyword_fields_A ks) = map (take 64) (take 20 ks)"
proof -
  have "map snd (map (\<lambda>(i, kw). (i, take 64 kw)) ps) = map (take 64) (map snd ps)"
    for ps :: "(nat \<times> jsstring) list"
    by (induction ps) auto
  then show ?thesis
    unfolding keyword_fields_A_def by (simp only: map_snd_enumerate)
qed

lemma chunk_count: "16 * k < n \<longleftrightarrow> k < (n + 15) div 16" for k n :: nat
  by arith

lemma keyword_fields_B_loop_chunks:
  "keyword_fields_B_loop ks (16 * k)
     = map (\<lambda>j. (j, join (js '','') (take 16 (drop (16 * j) ks))))
         [k..<(length ks + 15) div 16]"
proof (induction "(length ks + 15) div 16 - k" arbitrary: k)
  case 0
  then have "\<not> 16 * k < length ks" by (simp add: chunk_count)
  with 0 show ?case by (simp add: keyword_fields_B_loop.simps)
next
  case (Suc d)
  then have lt: "k < (length ks + 15) div 16" by simp
  then have "16 * k < length ks" by (simp add: chunk_count)
  then have "keyword_fields_B_loop ks (16 * k)
      = (k, join (js '','') (take 16 (drop (16 * k) ks))) # keyword_fields_B_loop ks (16 * Suc k)"
    by (subst keyword_fields_B_loop.simps) (simp add: add.commute)
  moreover have "d = (length ks + 15) div 16 - Suc k" using Suc.hyps(2) by simp
  ultimately show ?case using Suc.hyps(1) [of "Suc k"] lt by (simp add: upt_conv_Cons)
qed

lemma keyword_fields_B_chunks:
  "keyword_fields_B ks
     = map (\<lambda>j. (j, join (js '','') (take 16 (drop (16 * j) ks))))
         [0..<(length ks + 15) div 16]"
  using keyword_fields_B_loop_chunks [of ks 0] by (simp add: keyword_fields_B_def)

lemma chunks_concat_from:
  "concat (map (\<lambda>j. take 16 (drop (16 * j) ks)) [k..<(length ks + 15) div 16])
     = drop (16 * k) ks"
proof (induction "(length ks + 15) div 16 - k" arbitrary: k)
  case 0
  then have "\<not> 16 * k < length ks" by (simp add: chunk_count)
  with 0 show ?case by simp
next
  case (Suc d)
  then have lt: "k < (length ks + 15) div 16" by simp
  have "d = (length ks + 15) div 16 - Suc k" using Suc.hyps(2) by simp
  from Suc.hyps(1) [OF this]
  have "concat (map (\<lambda>j. take 16 (drop (16 * j) ks)) [Suc k..<(length ks + 15) div 16])
      = drop (16 + 16 * k) ks" by simp
  moreover have "take 16 (drop (16 * k) ks) @ drop (16 + 16 * k) ks = drop (16 * k) ks"
    by (metis append_take_drop_id drop_drop)
  ultimately show ?case using lt by (simp add: upt_conv_Cons)
qed

lemma chunks_concat:
  "concat (map (\<lambda>j. take 16 (drop (16 * j) ks)) [0..<(length ks + 15) div 16]) = ks"
  using chunks_concat_from [of ks 0] by simp

text \<open>
  C3, as the code has it. The working keyword list has no two equal entries
  (exact comparison) after \<open>displayMetadata\<close>, and \<open>addKeyword\<close> and the click
  handler that removes a keyword keep it so, whatever element the handler is run from.
  \<open>displayMetadata\<close> cuts the list to 20 entries in the first variant and to 25 in
  the second, and \<open>saveAndDownload\<close> of the first variant writes the first 20
  keywords at most, each cut to 64 code units. \<open>addKeyword\<close> has no cap, and
  \<open>saveAndDownload\<close> of the second variant writes the whole list: for \<open>n\<close>
  keywords it writes the fields \<open>0\<close> to \<open>\<lceil>n / 16\<rceil> - 1\<close>, field \<open>j\<close> is the
  keywords from position \<open>16 j\<close> on, 16 of them at most, joined by commas, and these
  chunks put one after the other are the list.
\<close>

theorem keyword_list_invariant:
  "distinct (currentKeywords (displayMetadata_A g st)) \<and>
   length (currentKeywords (displayMetadata_A g st)) \<le> 20 \<and>
   distinct (currentKeywords (displayMetadata_B e g st)) \<and>
   length (currentKeywords (displayMetadata_B e g st)) \<le> 25 \<and>
   (distinct (currentKeywords st) \<longrightarrow> distinct (currentKeywords (addKeyword st))) \<and>
   (distinct (currentKeywords st) \<longrightarrow> distinct (currentKeywords (deleteHandler a st))) \<and>
   length (keyword_fields_A (currentKeywords st)) \<le> 20 \<and>
   map snd (keyword_fields_A (currentKeywords st)) = map (take 64) (take 20 (currentKeywords st)) \<and>
   keyword_fields_B (currentKeywords st)
     = map (\<lambda>j. (j, join (js '','') (take 16 (drop (16 * j) (currentKeywords st)))))
         [0..<(length (currentKeywords st) + 15) div 16] \<and>
   concat (map (\<lambda>j. take 16 (drop (16 * j) (currentKeywords st)))
         [0..<(length (currentKeywords st) + 15) div 16]) = currentKeywords st"
proof -
  have "length (keyword_fields_A (currentKeywords st)) \<le> 20"
    by (simp add: keyword_fields_A_def)
  then show ?thesis
    by (simp add: displayMetadata_A_def displayMetadata_B_def distinct_new_Set
        distinct_addKeyword distinct_deleteHandler keyword_fields_A_values
        keyword_fields_B_chunks chunks_concat)
qed

theorem keyword_list_invariant_witness:
  "distinct [js ''a'', js ''b''] \<and>
   distinct (currentKeywords (addKeyword
     \<lparr>captionInput = [], currentKeywords = [js ''a'', js ''b''], newKeyword = js ''c''\<rparr>)) \<and>
   distinct (currentKeywords (deleteHandler (Some (js ''0''))
     \<lparr>captionInput = [], currentKeywords = [js ''a'', js ''b''], newKeyword = js ''c''\<rparr>))"
proof -
  have d: "distinct [js ''a'', js ''b'']" by (simp add: js_def)
  note t = keyword_list_invariant [where st =
        "\<lparr>captionInput = [], currentKeywords = [js ''a'', js ''b''], newKeyword = js ''c''\<rparr>"
        and a = "Some (js ''0'')" and g = "\<lparr>caption = [], keywords_list = []\<rparr>"
        and e = "\<lparr>caption = [], keywords_list = []\<rparr>"]
  note t4 = t [THEN conjunct2, THEN conjunct2, THEN conjunct2, THEN conjunct2]
  from d t4 [THEN conjunct1] t4 [THEN conjunct2, THEN conjunct1]
  show ?thesis by simp
qed

lemma new_Set_letters:
  "new_Set
     [js ''a'', js ''b'', js ''c'', js ''d'', js ''e'', js ''f'', js ''g'', js ''h'', js ''i'',
      js ''j'', js ''k'', js ''l'', js ''m'', js ''n'', js ''o'', js ''p'', js ''q'', js ''r'',
      js ''s'', js ''t'', js ''u'', js ''v'', js ''w'', js ''x'', js ''y'']
   = [js ''a'', js ''b'', js ''c'', js ''d'', js ''e'', js ''f'', js ''g'', js ''h'', js ''i'',
      js ''j'', js ''k'', js ''l'', js ''m'', js ''n'', js ''o'', js ''p'', js ''q'', js ''r'',
      js ''s'', js ''t'', js ''u'', js ''v'', js ''w'', js ''x'', js ''y'']"
  by (rule new_Set_distinct_id) (simp add: js_def)

lemma over_cap_state:
  "currentKeywords (addKeyword
       ((displayMetadata_B \<lparr>caption = [], keywords_list = []\<rparr>
           \<lparr>caption = js ''X'',
            keywords_list =
              [js ''a'', js ''b'', js ''c'', js ''d'', js ''e'', js ''f'', js ''g'', js ''h'', js ''i'',
               js ''j'', js ''k'', js ''l'', js ''m'', js ''n'', js ''o'', js ''p'', js ''q'', js ''r'',
               js ''s'', js ''t'', js ''u'', js ''v'', js ''w'', js ''x'', js ''y'']\<rparr>
           \<lparr>captionInput = [], currentKeywords = [], newKeyword = []\<rparr>)
        \<lparr>newKeyword := js ''z''\<rparr>)) = [js ''a'', js ''b'', js ''c'', js ''d'', js ''e'', js ''f'', js ''g'', js ''h'', js ''i'',
      js ''j'', js ''k'', js ''l'', js ''m'', js ''n'', js ''o'', js ''p'', js ''q'', js ''r'',
      js ''s'', js ''t'', js ''u'', js ''v'', js ''w'', js ''x'', js ''y'']
     @ [js ''z'']"
proof -
  have t: "trim (js ''z'') = js ''z''"
    by (simp add: trim_def js_def isSpace_def isWhiteSpace_def isLineTerminator_def)
  have n: "js ''z'' \<notin> set
      [js ''a'', js ''b'', js ''c'', js ''d'', js ''e'', js ''f'', js ''g'', js ''h'', js ''i'',
       js ''j'', js ''k'', js ''l'', js ''m'', js ''n'', js ''o'', js ''p'', js ''q'', js ''r'',
       js ''s'', js ''t'', js ''u'', js ''v'', js ''w'', js ''x'', js ''y'']"
    "js ''z'' \<noteq> []"
    by (simp_all add: js_def)
  show ?thesis
    using n by (simp add: addKeyword_def displayMetadata_B_def new_Set_letters t)
qed

text \<open>
  C3 as stated fails in the second variant: after \<open>displayMetadata\<close> has shown 25
  keywords and the user has added a 26th, the list is longer than the maximum of 25,
  and \<open>saveAndDownload\<close> writes all 26 keywords, in two fields.
\<close>

theorem keyword_cap_counterexample:
  "\<not> length (currentKeywords (addKeyword
       ((displayMetadata_B \<lparr>caption = [], keywords_list = []\<rparr>
           \<lparr>caption = js ''X'',
            keywords_list =
              [js ''a'', js ''b'', js ''c'', js ''d'', js ''e'', js ''f'', js ''g'', js ''h'', js ''i'',
               js ''j'', js ''k'', js ''l'', js ''m'', js ''n'', js ''o'', js ''p'', js ''q'', js ''r'',
               js ''s'', js ''t'', js ''u'', js ''v'', js ''w'', js ''x'', js ''y'']\<rparr>
           \<lparr>captionInput = [], currentKeywords = [], newKeyword = []\<rparr>)
        \<lparr>newKeyword := js ''z''\<rparr>))) \<le> 25 \<and>
   keyword_fields_B (currentKeywords (addKeyword
       ((displayMetadata_B \<lparr>caption = [], keywords_list = []\<rparr>
           \<lparr>caption = js ''X'',
            keywords_list =
              [js ''a'', js ''b'', js ''c'', js ''d'', js ''e'', js ''f'', js ''g'', js ''h'', js ''i'',
               js ''j'', js ''k'', js ''l'', js ''m'', js ''n'', js ''o'', js ''p'', js ''q'', js ''r'',
               js ''s'', js ''t'', js ''u'', js ''v'', js ''w'', js ''x'', js ''y'']\<rparr>
           \<lparr>captionInput = [], currentKeywords = [], newKeyword = []\<rparr>)
        \<lparr>newKeyword := js ''z''\<rparr>)))
     = [(0, js ''a,b,c,d,e,f,g,h,i,j,k,l,m,n,o,p''), (1, js ''q,r,s,t,u,v,w,x,y,z'')]"
  unfolding over_cap_state
  by (simp add: keyword_fields_B_def keyword_fields_B_loop.simps js_def)


subsection \<open>Merging keyword lists\<close>

lemma take_new_Set_id:
  "distinct ks \<Longrightarrow> length ks \<le> n \<Longrightarrow> take n (new_Set (ks @ ks)) = ks"
  by (simp add: new_Set_twice new_Set_distinct_id)

lemma merged_again:
  "take n (new_Set (take n (new_Set xs) @ take n (new_Set xs))) = take n (new_Set xs)"
  by (rule take_new_Set_id) (simp_all add: distinct_new_Set)

lemma merged_again_A:
  "take n (new_Set (take n (new_Set xs))) = take n (new_Set xs)"
  by (simp add: new_Set_distinct_id distinct_new_Set)

text \<open>
  C4, as the code has it. Merging a keyword list without duplicates and no longer than
  the cap with itself gives that list; merging the result of any merge with itself
  gives that result again; and whatever the inputs, the result of a merge has no
  duplicates and at most 25 entries (second variant) or 20 (first variant, whose
  \<open>displayMetadata\<close> reads the generated keywords only).
\<close>

theorem merge_idempotent:
  "(distinct ks \<and> length ks \<le> 25 \<longrightarrow>
      currentKeywords (displayMetadata_B \<lparr>caption = c, keywords_list = ks\<rparr>
                         \<lparr>caption = c', keywords_list = ks\<rparr> st) = ks) \<and>
   (distinct ks \<and> length ks \<le> 20 \<longrightarrow>
      currentKeywords (displayMetadata_A \<lparr>caption = c', keywords_list = ks\<rparr> st) = ks) \<and>
   currentKeywords (displayMetadata_B
       \<lparr>caption = c, keywords_list = currentKeywords (displayMetadata_B e g st)\<rparr>
       \<lparr>caption = c', keywords_list = currentKeywords (displayMetadata_B e g st)\<rparr> st')
     = currentKeywords (displayMetadata_B e g st) \<and>
   currentKeywords (displayMetadata_A
       \<lparr>caption = c', keywords_list = currentKeywords (displayMetadata_A g st)\<rparr> st')
     = currentKeywords (displayMetadata_A g st) \<and>
   length (currentKeywords (displayMetadata_B e g st)) \<le> 25 \<and>
   distinct (currentKeywords (displayMetadata_B e g st)) \<and>
   length (currentKeywords (displayMetadata_A g st)) \<le> 20 \<and>
   distinct (currentKeywords (displayMetadata_A g st))"
  by (simp add: displayMetadata_A_def displayMetadata_B_def take_new_Set_id merged_again
      merged_again_A new_Set_distinct_id distinct_new_Set)

theorem merge_idempotent_witness:
  "distinct [js ''a'', js ''b''] \<and> length [js ''a'', js ''b''] \<le> 20 \<and>
   currentKeywords (displayMetadata_B \<lparr>caption = [], keywords_list = [js ''a'', js ''b'']\<rparr>
                      \<lparr>caption = [], keywords_list = [js ''a'', js ''b'']\<rparr>
                            \<lparr>captionInput = [], currentKeywords = [], newKeyword = []\<rparr>) = [js ''a'', js ''b''] \<and>
   currentKeywords (displayMetadata_A \<lparr>caption = [], keywords_list = [js ''a'', js ''b'']\<rparr>
         \<lparr>captionInput = [], currentKeywords = [], newKeyword = []\<rparr>)
     = [js ''a'', js ''b'']"
proof -
  have d: "distinct [js ''a'', js ''b'']" by (simp add: js_def)
  show ?thesis
    using d merge_idempotent [where ks = "[js ''a'', js ''b'']" and c = "[]" and c' = "[]"
        and st = "\<lparr>captionInput = [], currentKeywords = [], newKeyword = []\<rparr>"]
    by simp
qed

text \<open>
  C4 as stated, for every keyword list, fails for a list with a repeated keyword:
  merging \<open>["a","a"]\<close> with itself gives \<open>["a"]\<close>.
\<close>

theorem merge_idempotent_counterexample:
  "currentKeywords (displayMetadata_B \<lparr>caption = [], keywords_list = [js ''a'', js ''a'']\<rparr>
                      \<lparr>caption = [], keywords_list = [js ''a'', js ''a'']\<rparr>
                            \<lparr>captionInput = [], currentKeywords = [], newKeyword = []\<rparr>) = [js ''a''] \<and>
   currentKeywords (displayMetadata_A \<lparr>caption = [], keywords_list = [js ''a'', js ''a'']\<rparr>
         \<lparr>captionInput = [], currentKeywords = [], newKeyword = []\<rparr>) = [js ''a''] \<and>
   [js ''a''] \<noteq> [js ''a'', js ''a'']"
  by (simp add: displayMetadata_A_def displayMetadata_B_def new_Set_def set_add_def)

subsection \<open>The displayed caption\<close>

text \<open>
  C5, as the code has it. Both variants show the generated caption when it is not
  empty. When it is empty the second variant shows the caption that was in the image;
  the first variant has no such fallback and shows the generated caption in any case.
\<close>

theorem displayed_caption:
  "(caption g \<noteq> [] \<longrightarrow> captionInput (displayMetadata_A g st) = caption g \<and>
                          captionInput (displayMetadata_B e g st) = caption g) \<and>
   (caption g = [] \<longrightarrow> captionInput (displayMetadata_B e g st) = caption e) \<and>
   captionInput (displayMetadata_A g st) = caption g"
  by (simp add: displayMetadata_A_def displayMetadata_B_def or_else_def)

theorem displayed_caption_witness:
  "js ''New'' \<noteq> [] \<and>
   captionInput (displayMetadata_A \<lparr>caption = js ''New'', keywords_list = []\<rparr>
         \<lparr>captionInput = [], currentKeywords = [], newKeyword = []\<rparr>) = js ''New'' \<and>
   captionInput (displayMetadata_B \<lparr>caption = js ''Old'', keywords_list = []\<rparr>
                   \<lparr>caption = js ''New'', keywords_list = []\<rparr>
                         \<lparr>captionInput = [], currentKeywords = [], newKeyword = []\<rparr>) = js ''New'' \<and>
   captionInput (displayMetadata_B \<lparr>caption = js ''Old'', keywords_list = []\<rparr>
                   \<lparr>caption = [], keywords_list = []\<rparr>
                         \<lparr>captionInput = [], currentKeywords = [], newKeyword = []\<rparr>) = js ''Old''"
proof -
  have n: "js ''New'' \<noteq> []" by (simp add: js_def)
  show ?thesis
    using n
      displayed_caption [where g = "\<lparr>caption = js ''New'', keywords_list = []\<rparr>"
        and st = "\<lparr>captionInput = [], currentKeywords = [], newKeyword = []\<rparr>"
        and e = "\<lparr>caption = js ''Old'', keywords_list = []\<rparr>"]
      displayed_caption [where g = "\<lparr>caption = [], keywords_list = []\<rparr>"
        and st = "\<lparr>captionInput = [], currentKeywords = [], newKeyword = []\<rparr>"
        and e = "\<lparr>caption = js ''Old'', keywords_list = []\<rparr>"]
    by simp
qed

lemma no_match_hello_A: "match True caption_re_A (js ''hello'') = None"
  by (simp add: match_def caption_re_A_def js_def)

text \<open>
  C5 as stated fails in the first variant: the image has the caption \<open>Old\<close>, the
  reply holds no caption, and the page shows the placeholder instead of \<open>Old\<close>.
\<close>

theorem displayed_caption_counterexample:
  "captionInput (analyzeImage_A \<lparr>caption = js ''Old'', keywords_list = []\<rparr> (js ''hello'')
        \<lparr>captionInput = [], currentKeywords = [], newKeyword = []\<rparr>)
     = js ''No caption'' \<and>
   js ''No caption'' \<noteq> js ''Old''"
proof -
  have "js ''No caption'' \<noteq> js ''Old''" by (simp add: js_def)
  then show ?thesis
    by (simp add: analyzeImage_A_def displayMetadata_A_def parseApiResponse_A_def no_match_hello_A)
qed

subsection \<open>The relay\<close>

text \<open>
  C2, as the code has it. Both relays pass the parsed JSON body of a 2xx answer on with
  status 200. For another upstream status the second relay answers 502 with
  \<open>{ error: "Upstream error: <status>" }\<close>, the first one 500 with
  \<open>{ error: "API error: <status> - <body>" }\<close>. When the call or the reading of the
  body fails, both answer 500 with an error object; the second relay, the one with the
  timer, says \<open>Request timeout\<close> for an abort and gives the message of the error
  otherwise.
\<close>

theorem relay_replies:
  "(ok status \<and> parse text = Inr v \<longrightarrow>
      relay_B parse (Resolved status (Inr text)) = (200, Json v) \<and>
      relay_A parse (Resolved status (Inr text)) = (200, Json v)) \<and>
   (\<not> ok status \<longrightarrow>
      relay_B parse (Resolved status (Inr text))
        = (502, ErrorObject (js ''Upstream error: '' @ digits status)) \<and>
      relay_A parse (Resolved status (Inr text))
        = (500, ErrorObject (js ''API error: '' @ digits status @ js '' - '' @ text))) \<and>
   relay_B parse (Rejected err)
     = (500, ErrorObject (if name err = js ''AbortError'' then js ''Request timeout''
                          else message err)) \<and>
   relay_B parse (Resolved status (Inl err)) = relay_B parse (Rejected err) \<and>
   relay_A parse (Rejected err) = (500, ErrorObject (message err)) \<and>
   relay_A parse (Resolved status (Inl err)) = (500, ErrorObject (message err))"
  by (simp add: relay_A_def relay_B_def catch_A_def catch_B_def)

theorem relay_replies_witness:
  "ok 200 \<and> \<not> ok 401 \<and>
   relay_B Inr (Resolved 200 (Inr (js ''{}''))) = (200, Json (js ''{}'')) \<and>
   relay_A Inr (Resolved 200 (Inr (js ''{}''))) = (200, Json (js ''{}'')) \<and>
   relay_B Inr (Resolved 401 (Inr (js ''denied'')))
     = (502, ErrorObject (js ''Upstream error: 401'')) \<and>
   relay_B Inr (Rejected \<lparr>name = js ''AbortError'', message = js ''The user aborted a request.''\<rparr>)
     = (500, ErrorObject (js ''Request timeout''))"
proof -
  have o: "ok 200" "\<not> ok 401" by (simp_all add: ok_def)
  have d: "js ''Upstream error: '' @ digits 401 = js ''Upstream error: 401''"
    by (simp add: digits.simps js_def)
  show ?thesis
    using o d
      relay_replies [of 200 Inr "js ''{}''" "js ''{}''"
        "\<lparr>name = js ''AbortError'', message = js ''The user aborted a request.''\<rparr>"]
      relay_replies [of 401 Inr "js ''denied''" "js ''denied''"
        "\<lparr>name = js ''AbortError'', message = js ''The user aborted a request.''\<rparr>"]
    by simp
qed

text \<open>
  C2 as stated fails for \<open>server.js\<close>: an upstream 401 is answered with status 500,
  not 502.
\<close>

theorem relay_replies_counterexample:
  "\<not> ok 401 \<and>
   relay_A Inr (Resolved 401 (Inr (js ''denied'')))
     = (500, ErrorObject (js ''API error: 401 - denied'') :: jsstring body) \<and>
   fst (relay_A Inr (Resolved 401 (Inr (js ''denied''))) :: jsstring reply) \<noteq> 502"
  by (simp add: relay_A_def catch_A_def ok_def digits.simps js_def)

subsection \<open>parseApiResponse: what a match consumes\<close>

lemma one_elim:
  "s' \<in> set (one p s) \<Longrightarrow> \<exists>x. s = x # s' \<and> p x"
  by (cases s) (auto split: if_splits)

lemma rep_greedy_elim:
  "s' \<in> set (rep_greedy p s) \<Longrightarrow> \<exists>m. s = m @ s' \<and> (\<forall>c \<in> set m. p c)"
proof (induction s)
  case Nil
  then show ?case by simp
next
  case (Cons x xs)
  show ?case
  proof (cases "s' = x # xs")
    case True
    then show ?thesis by simp
  next
    case False
    with Cons.prems have "p x" and "s' \<in> set (rep_greedy p xs)"
      by (auto split: if_splits)
    with Cons.IH obtain m where "xs = m @ s'" and "\<forall>c \<in> set m. p c" by blast
    with \<open>p x\<close> have "x # xs = (x # m) @ s' \<and> (\<forall>c \<in> set (x # m). p c)" by simp
    then show ?thesis by blast
  qed
qed

lemma rep_lazy_elim:
  "s' \<in> set (rep_lazy p s) \<Longrightarrow> \<exists>m. s = m @ s' \<and> (\<forall>c \<in> set m. p c)"
proof (induction s)
  case Nil
  then show ?case by simp
next
  case (Cons x xs)
  show ?case
  proof (cases "s' = x # xs")
    case True
    then show ?thesis by simp
  next
    case False
    with Cons.prems have "p x" and "s' \<in> set (rep_lazy p xs)"
      by (auto split: if_splits)
    with Cons.IH obtain m where "xs = m @ s'" and "\<forall>c \<in> set m. p c" by blast
    with \<open>p x\<close> have "x # xs = (x # m) @ s' \<and> (\<forall>c \<in> set (x # m). p c)" by simp
    then show ?thesis by blast
  qed
qed

lemma rep_elim:
  assumes "s' \<in> set (rep q p s)"
  shows "\<exists>m. s = m @ s' \<and> (\<forall>c \<in> set m. p c) \<and> (q \<noteq> Star \<longrightarrow> m \<noteq> [])"
proof (cases q)
  case Star
  with assms show ?thesis using rep_greedy_elim [of s' p s] by auto
next
  case Plus
  with assms obtain t where "t \<in> set (one p s)" and "s' \<in> set (rep_greedy p t)" by auto
  then obtain x m where "s = x # t" "p x" "t = m @ s'" "\<forall>c \<in> set m. p c"
    using one_elim rep_greedy_elim by blast
  then have "s = (x # m) @ s' \<and> (\<forall>c \<in> set (x # m). p c) \<and> x # m \<noteq> []" by simp
  then show ?thesis by blast
next
  case LazyPlus
  with assms obtain t where "t \<in> set (one p s)" and "s' \<in> set (rep_lazy p t)" by auto
  then obtain x m where "s = x # t" "p x" "t = m @ s'" "\<forall>c \<in> set m. p c"
    using one_elim rep_lazy_elim by blast
  then have "s = (x # m) @ s' \<and> (\<forall>c \<in> set (x # m). p c) \<and> x # m \<noteq> []" by simp
  then show ?thesis by blast
qed

lemma Lit_elim:
  assumes "(s', c') \<in> set (matches ic (Lit cs) (s, c))"
  shows "c' = c \<and> (\<exists>m. s = m @ s' \<and> map (canonicalize ic) m = map (canonicalize ic) cs)"
proof -
  from assms have "c' = c" "s' = drop (length cs) s"
    "map (canonicalize ic) (take (length cs) s) = map (canonicalize ic) cs"
    by (auto split: if_splits)
  then have "s = take (length cs) s @ s'" by simp
  with \<open>c' = c\<close> \<open>map (canonicalize ic) (take (length cs) s) = map (canonicalize ic) cs\<close>
  show ?thesis by blast
qed

lemma Rep_elim:
  assumes "(s', c') \<in> set (matches ic (Rep cl q) (s, c))"
  shows "c' = c \<and> (\<exists>m. s = m @ s' \<and> (\<forall>x \<in> set m. in_cls cl x) \<and> (q \<noteq> Star \<longrightarrow> m \<noteq> []))"
  using assms rep_elim [of s' q "in_cls cl" s] by auto

lemma Cat_elim:
  "x \<in> set (matches ic (Cat r1 r2) st) \<Longrightarrow>
     \<exists>y \<in> set (matches ic r1 st). x \<in> set (matches ic r2 y)"
  by auto

lemma Group_elim:
  "(s', c') \<in> set (matches ic (Group n r) (s, c)) \<Longrightarrow>
     \<exists>c0. (s', c0) \<in> set (matches ic r (s, c)) \<and> c' = (n, take (length s - length s') s) # c0"
  by auto

lemma matches_suffix:
  "(s', c') \<in> set (matches ic r (s, c)) \<Longrightarrow> \<exists>m. s = m @ s'"
proof (induction r arbitrary: s c s' c')
  case (Lit cs)
  then show ?case using Lit_elim by blast
next
  case (Rep cl q)
  then show ?case using Rep_elim by blast
next
  case (Cat r1 r2)
  from Cat.prems obtain t ct where "(t, ct) \<in> set (matches ic r1 (s, c))"
    and "(s', c') \<in> set (matches ic r2 (t, ct))"
    by (auto dest!: Cat_elim)
  with Cat.IH obtain m1 m2 where "s = m1 @ t" "t = m2 @ s'" by blast
  then have "s = (m1 @ m2) @ s'" by simp
  then show ?case by blast
next
  case (Alt r1 r2)
  then show ?case by auto
next
  case (Group n r)
  then show ?case by (auto dest!: Group_elim)
next
  case EndOfInput
  then show ?case by (auto split: if_splits)
qed

lemma exec_from_Some:
  "exec_from ic r i s = Some (j, m, caps) \<Longrightarrow>
     \<exists>pre s' ms. s = pre @ m @ s' \<and> j = i + length pre \<and>
                    matches ic r (m @ s', []) = (s', caps) # ms"
proof (induction s arbitrary: i)
  case Nil
  then obtain s' ms where *: "matches ic r ([], []) = (s', caps) # ms" and "m = []"
    by (auto split: list.splits)
  then have "(s', caps) \<in> set (matches ic r ([], []))" by simp
  then have "s' = []" using matches_suffix by fastforce
  with * \<open>m = []\<close> Nil show ?case by (auto split: list.splits)
next
  case (Cons x xs)
  show ?case
  proof (cases "matches ic r (x # xs, [])")
    case Nil
    with Cons.prems have "exec_from ic r (Suc i) xs = Some (j, m, caps)" by simp
    from Cons.IH [OF this] obtain pre s' ms where
      "xs = pre @ m @ s'" "j = Suc i + length pre" "matches ic r (m @ s', []) = (s', caps) # ms"
      by blast
    then have "x # xs = (x # pre) @ m @ s' \<and> j = i + length (x # pre) \<and>
               matches ic r (m @ s', []) = (s', caps) # ms" by simp
    then show ?thesis by blast
  next
    case (Cons a ms)
    obtain s' c' where a: "a = (s', c')" by (cases a)
    with Cons have "(s', c') \<in> set (matches ic r (x # xs, []))" by simp
    then obtain m0 where m0: "x # xs = m0 @ s'" using matches_suffix by blast
    from Cons a Cons.prems have "j = i" "caps = c'" "m = take (length (x # xs) - length s') (x # xs)"
      by simp_all
    with m0 have "m = m0" by simp
    with m0 Cons a \<open>j = i\<close> \<open>caps = c'\<close>
    have "x # xs = [] @ m @ s' \<and> j = i + length ([] :: jsstring) \<and>
          matches ic r (m @ s', []) = (s', caps) # ms" by simp
    then show ?thesis by blast
  qed
qed

lemma exec_from_None:
  "(\<And>k. k \<le> length s \<Longrightarrow> matches ic r (drop k s, []) = []) \<Longrightarrow> exec_from ic r i s = None"
proof (induction s arbitrary: i)
  case Nil
  from Nil [of 0] show ?case by simp
next
  case (Cons x xs)
  from Cons.prems [of 0] have "matches ic r (x # xs, []) = []" by simp
  moreover have "exec_from ic r (Suc i) xs = None"
  proof (rule Cons.IH)
    fix k assume "k \<le> length xs"
    with Cons.prems [of "Suc k"] show "matches ic r (drop k xs, []) = []" by simp
  qed
  ultimately show ?case by simp
qed

subsection \<open>The markers\<close>

lemma marker_needed:
  assumes "matches ic (Cat (Lit cs) r) (s, c) \<noteq> []"
  shows "\<exists>m t. s = m @ t \<and> map (canonicalize ic) m = map (canonicalize ic) cs"
proof -
  from assms have "hd (matches ic (Cat (Lit cs) r) (s, c)) \<in> set (matches ic (Cat (Lit cs) r) (s, c))"
    by (rule hd_in_set)
  from Cat_elim [OF this] obtain y where y: "y \<in> set (matches ic (Lit cs) (s, c))" ..
  obtain t ct where "y = (t, ct)" by (cases y)
  from Lit_elim [OF y [unfolded this]] obtain m where
    "s = m @ t" "map (canonicalize ic) m = map (canonicalize ic) cs"
    by (elim conjE exE)
  then show ?thesis by (intro exI conjI)
qed

lemma no_marker_no_match:
  assumes "\<not> (\<exists>pre m post. s = pre @ m @ post \<and>
              map (canonicalize ic) m = map (canonicalize ic) cs)"
  shows "match ic (Cat (Lit cs) r) s = None"
  unfolding match_def
proof (rule exec_from_None)
  fix k assume "k \<le> length s"
  show "matches ic (Cat (Lit cs) r) (drop k s, []) = []"
  proof (rule ccontr)
    assume "matches ic (Cat (Lit cs) r) (drop k s, []) \<noteq> []"
    from marker_needed [OF this] obtain m t where
      "drop k s = m @ t" "map (canonicalize ic) m = map (canonicalize ic) cs" by blast
    then have "s = take k s @ m @ t \<and> map (canonicalize ic) m = map (canonicalize ic) cs"
      by (metis append_take_drop_id)
    with assms show False by blast
  qed
qed

lemma canon_CAPTION: "map (canonicalize True) (js ''CAPTION:'') = js ''CAPTION:''"
  by (simp add: js_def canonicalize_def)

lemma canon_KEYWORDS: "map (canonicalize True) (js ''KEYWORDS:'') = js ''KEYWORDS:''"
  by (simp add: js_def canonicalize_def)

subsection \<open>The shape of a caption match\<close>

lemma Cat_elim_pair:
  "(s', c') \<in> set (matches ic (Cat r1 r2) st) \<Longrightarrow>
     \<exists>t ct. (t, ct) \<in> set (matches ic r1 st) \<and> (s', c') \<in> set (matches ic r2 (t, ct))"
  by auto

lemma tail_A_caps:
  "(s', caps) \<in> set (matches ic (Alt (Cat (Rep cl q) (Lit cs)) EndOfInput) (t, c)) \<Longrightarrow> caps = c"
  by (auto split: if_splits)

lemma tail_B_caps:
  "(s', caps) \<in> set (matches ic (Cat (Rep cl q) (Group n (Alt (Lit cs) EndOfInput))) (t, c)) \<Longrightarrow>
     \<exists>g. caps = (n, g) # c"
  by (auto split: if_splits)

lemma caption_head_shape:
  assumes "(t3, c3) \<in> set (matches True (Group 1 (Rep Dot LazyPlus)) (t2, c2))"
    and "(t2, c2) \<in> set (matches True (Rep Space Star) (t1, c1))"
    and "(t1, c1) \<in> set (matches True (Lit (js ''CAPTION:'')) (s, []))"
  shows "\<exists>mk sp cap. s = mk @ sp @ cap @ t3 \<and> map (canonicalize True) mk = js ''CAPTION:'' \<and>
           (\<forall>c \<in> set sp. isSpace c) \<and> cap \<noteq> [] \<and> (\<forall>c \<in> set cap. \<not> isLineTerminator c) \<and>
           c3 = [(1, cap)]"
proof -
  from assms(3) obtain mk where mk: "c1 = []" "s = mk @ t1"
    "map (canonicalize True) mk = js ''CAPTION:''"
    using Lit_elim [of t1 c1 True "js ''CAPTION:''" s "[]"] by (auto simp: canon_CAPTION)
  from assms(2) obtain sp where sp: "c2 = c1" "t1 = sp @ t2" "\<forall>c \<in> set sp. isSpace c"
    using Rep_elim [of t2 c2 True Space Star t1 c1] by auto
  from assms(1) obtain c0 where c0: "(t3, c0) \<in> set (matches True (Rep Dot LazyPlus) (t2, c2))"
    "c3 = (1, take (length t2 - length t3) t2) # c0"
    using Group_elim by blast
  from c0(1) obtain cap where cap: "c0 = c2" "t2 = cap @ t3" "cap \<noteq> []"
    "\<forall>c \<in> set cap. \<not> isLineTerminator c"
    using Rep_elim [of t3 c0 True Dot LazyPlus t2 c2] by auto
  from cap(2) have "take (length t2 - length t3) t2 = cap" by simp
  with c0(2) cap(1) sp(1) mk(1) have "c3 = [(1, cap)]" by simp
  moreover from mk(2) sp(2) cap(2) have "s = mk @ sp @ cap @ t3" by simp
  ultimately show ?thesis using mk(3) sp(3) cap(3,4) by blast
qed

lemma caption_A_result:
  assumes "(s', caps) \<in> set (matches True caption_re_A (s, []))"
  shows "\<exists>mk sp cap rest. s = mk @ sp @ cap @ rest \<and> map (canonicalize True) mk = js ''CAPTION:'' \<and>
           (\<forall>c \<in> set sp. isSpace c) \<and> cap \<noteq> [] \<and> (\<forall>c \<in> set cap. \<not> isLineTerminator c) \<and>
           map_of caps 1 = Some cap"
proof -
  from assms [unfolded caption_re_A_def] obtain t1 c1 where
    1: "(t1, c1) \<in> set (matches True (Lit (js ''CAPTION:'')) (s, []))" and
    r1: "(s', caps) \<in> set (matches True (Cat (Rep Space Star) (Cat (Group 1 (Rep Dot LazyPlus))
           (Alt (Cat (Rep Space Star) (Lit (js ''|''))) EndOfInput))) (t1, c1))"
    by (blast dest: Cat_elim_pair)
  from r1 obtain t2 c2 where
    2: "(t2, c2) \<in> set (matches True (Rep Space Star) (t1, c1))" and
    r2: "(s', caps) \<in> set (matches True (Cat (Group 1 (Rep Dot LazyPlus))
           (Alt (Cat (Rep Space Star) (Lit (js ''|''))) EndOfInput)) (t2, c2))"
    by (blast dest: Cat_elim_pair)
  from r2 obtain t3 c3 where
    3: "(t3, c3) \<in> set (matches True (Group 1 (Rep Dot LazyPlus)) (t2, c2))" and
    4: "(s', caps) \<in> set (matches True (Alt (Cat (Rep Space Star) (Lit (js ''|''))) EndOfInput) (t3, c3))"
    by (blast dest: Cat_elim_pair)
  from 4 have "caps = c3" by (rule tail_A_caps)
  moreover from caption_head_shape [OF 3 2 1] obtain mk sp cap where
    "s = mk @ sp @ cap @ t3" "map (canonicalize True) mk = js ''CAPTION:''"
    "\<forall>c \<in> set sp. isSpace c" "cap \<noteq> []" "\<forall>c \<in> set cap. \<not> isLineTerminator c" "c3 = [(1, cap)]"
    by blast
  ultimately have "s = mk @ sp @ cap @ t3 \<and> map (canonicalize True) mk = js ''CAPTION:'' \<and>
    (\<forall>c \<in> set sp. isSpace c) \<and> cap \<noteq> [] \<and> (\<forall>c \<in> set cap. \<not> isLineTerminator c) \<and>
    map_of caps 1 = Some cap" by simp
  then show ?thesis by blast
qed

lemma caption_B_result:
  assumes "(s', caps) \<in> set (matches True caption_re_B (s, []))"
  shows "\<exists>mk sp cap rest. s = mk @ sp @ cap @ rest \<and> map (canonicalize True) mk = js ''CAPTION:'' \<and>
           (\<forall>c \<in> set sp. isSpace c) \<and> cap \<noteq> [] \<and> (\<forall>c \<in> set cap. \<not> isLineTerminator c) \<and>
           map_of caps 1 = Some cap"
proof -
  from assms [unfolded caption_re_B_def] obtain t1 c1 where
    1: "(t1, c1) \<in> set (matches True (Lit (js ''CAPTION:'')) (s, []))" and
    r1: "(s', caps) \<in> set (matches True (Cat (Rep Space Star) (Cat (Group 1 (Rep Dot LazyPlus))
           (Cat (Rep Space Star) (Group 2 (Alt (Lit (js ''|'')) EndOfInput))))) (t1, c1))"
    by (blast dest: Cat_elim_pair)
  from r1 obtain t2 c2 where
    2: "(t2, c2) \<in> set (matches True (Rep Space Star) (t1, c1))" and
    r2: "(s', caps) \<in> set (matches True (Cat (Group 1 (Rep Dot LazyPlus))
           (Cat (Rep Space Star) (Group 2 (Alt (Lit (js ''|'')) EndOfInput)))) (t2, c2))"
    by (blast dest: Cat_elim_pair)
  from r2 obtain t3 c3 where
    3: "(t3, c3) \<in> set (matches True (Group 1 (Rep Dot LazyPlus)) (t2, c2))" and
    4: "(s', caps) \<in> set (matches True (Cat (Rep Space Star) (Group 2 (Alt (Lit (js ''|'')) EndOfInput))) (t3, c3))"
    by (blast dest: Cat_elim_pair)
  from 4 obtain g where "caps = (2, g) # c3" using tail_B_caps by blast
  moreover from caption_head_shape [OF 3 2 1] obtain mk sp cap where
    "s = mk @ sp @ cap @ t3" "map (canonicalize True) mk = js ''CAPTION:''"
    "\<forall>c \<in> set sp. isSpace c" "cap \<noteq> []" "\<forall>c \<in> set cap. \<not> isLineTerminator c" "c3 = [(1, cap)]"
    by blast
  ultimately have "s = mk @ sp @ cap @ t3 \<and> map (canonicalize True) mk = js ''CAPTION:'' \<and>
    (\<forall>c \<in> set sp. isSpace c) \<and> cap \<noteq> [] \<and> (\<forall>c \<in> set cap. \<not> isLineTerminator c) \<and>
    map_of caps 1 = Some cap" by simp
  then show ?thesis by blast
qed

lemma caption_match_shape:
  assumes "match True r content = Some mr"
    and "\<And>s s' caps. (s', caps) \<in> set (matches True r (s, [])) \<Longrightarrow>
           \<exists>mk sp cap rest. s = mk @ sp @ cap @ rest \<and> map (canonicalize True) mk = js ''CAPTION:'' \<and>
             (\<forall>c \<in> set sp. isSpace c) \<and> cap \<noteq> [] \<and> (\<forall>c \<in> set cap. \<not> isLineTerminator c) \<and>
             map_of caps 1 = Some cap"
  shows "\<exists>pre mk sp cap rest. content = pre @ mk @ sp @ cap @ rest \<and> length pre = fst mr \<and>
           map (canonicalize True) mk = js ''CAPTION:'' \<and> (\<forall>c \<in> set sp. isSpace c) \<and>
           cap \<noteq> [] \<and> (\<forall>c \<in> set cap. \<not> isLineTerminator c) \<and> group 1 mr = Some cap"
proof -
  obtain j m caps where mr: "mr = (j, m, caps)" by (cases mr)
  with assms(1) have "exec_from True r 0 content = Some (j, m, caps)" by (simp add: match_def)
  from exec_from_Some [OF this] obtain pre s' ms where
    c: "content = pre @ m @ s'" "j = length pre" "matches True r (m @ s', []) = (s', caps) # ms"
    by auto
  then have "(s', caps) \<in> set (matches True r (m @ s', []))" by simp
  from assms(2) [OF this] obtain mk sp cap rest where
    "m @ s' = mk @ sp @ cap @ rest" "map (canonicalize True) mk = js ''CAPTION:''"
    "\<forall>c \<in> set sp. isSpace c" "cap \<noteq> []" "\<forall>c \<in> set cap. \<not> isLineTerminator c"
    "map_of caps 1 = Some cap" by blast
  with c mr have "content = pre @ mk @ sp @ cap @ rest \<and> length pre = fst mr \<and>
    map (canonicalize True) mk = js ''CAPTION:'' \<and> (\<forall>c \<in> set sp. isSpace c) \<and>
    cap \<noteq> [] \<and> (\<forall>c \<in> set cap. \<not> isLineTerminator c) \<and> group 1 mr = Some cap"
    by (simp add: group_def)
  then show ?thesis by blast
qed

lemma caption_A_shape:
  assumes "match True caption_re_A content = Some mr"
  shows "\<exists>pre mk sp cap rest. content = pre @ mk @ sp @ cap @ rest \<and> length pre = fst mr \<and>
           map (canonicalize True) mk = js ''CAPTION:'' \<and> (\<forall>c \<in> set sp. isSpace c) \<and>
           cap \<noteq> [] \<and> (\<forall>c \<in> set cap. \<not> isLineTerminator c) \<and> group 1 mr = Some cap"
  using assms caption_A_result by (rule caption_match_shape)

lemma caption_B_shape:
  assumes "match True caption_re_B content = Some mr"
  shows "\<exists>pre mk sp cap rest. content = pre @ mk @ sp @ cap @ rest \<and> length pre = fst mr \<and>
           map (canonicalize True) mk = js ''CAPTION:'' \<and> (\<forall>c \<in> set sp. isSpace c) \<and>
           cap \<noteq> [] \<and> (\<forall>c \<in> set cap. \<not> isLineTerminator c) \<and> group 1 mr = Some cap"
  using assms caption_B_result by (rule caption_match_shape)

lemma placeholders_nonempty: "js ''No caption'' \<noteq> []" "js ''No caption generated'' \<noteq> []"
  by (simp_all add: js_def)

lemma optional_chain:
  "(case map_option f (Option.bind m g) of None \<Rightarrow> d | Some c \<Rightarrow> h c)
     = (case m of None \<Rightarrow> d | Some mr \<Rightarrow> (case g mr of None \<Rightarrow> d | Some x \<Rightarrow> h (f x)))"
  by (cases m) (simp_all split: option.splits)

lemma caption_A_cases:
  "caption (parseApiResponse_A content)
     = (case match True caption_re_A content of
          None \<Rightarrow> js ''No caption''
        | Some mr \<Rightarrow> (case group 1 mr of
                       None \<Rightarrow> js ''No caption''
                     | Some cap \<Rightarrow> if trim cap = [] then js ''No caption'' else trim cap))"
  unfolding parseApiResponse_A_def
  by (simp only: metadata.select_convs optional_chain or_else_def)

lemma caption_B_cases:
  "caption (parseApiResponse_B content)
     = (case match True caption_re_B content of
          None \<Rightarrow> js ''No caption generated''
        | Some mr \<Rightarrow> (case group 1 mr of
                       None \<Rightarrow> js ''No caption generated''
                     | Some cap \<Rightarrow> if trim cap = [] then js ''No caption generated'' else trim cap))"
  unfolding parseApiResponse_B_def
  by (simp only: metadata.select_convs optional_chain or_else_def)

lemma keywords_A_cases:
  "keywords_list (parseApiResponse_A content)
     = (case match True keywords_re_A content of
          None \<Rightarrow> []
        | Some mr \<Rightarrow> (case group 1 mr of None \<Rightarrow> [] | Some k \<Rightarrow> split_re comma_re k))"
  unfolding parseApiResponse_A_def
  by (simp only: metadata.select_convs optional_chain)

lemma keywords_B_cases:
  "keywords_list (parseApiResponse_B content)
     = (case match True keywords_re_B content of
          None \<Rightarrow> []
        | Some mr \<Rightarrow> (case group 1 mr of
                       None \<Rightarrow> []
                     | Some k \<Rightarrow> filter (\<lambda>k. k \<noteq> []) (map trim (split_str 0x2C k))))"
  unfolding parseApiResponse_B_def
  by (simp only: metadata.select_convs optional_chain)

lemma caption_A_nonempty: "caption (parseApiResponse_A content) \<noteq> []"
  unfolding caption_A_cases using placeholders_nonempty by (simp split: option.splits)

lemma caption_B_nonempty: "caption (parseApiResponse_B content) \<noteq> []"
  unfolding caption_B_cases using placeholders_nonempty by (simp split: option.splits)

text \<open>
  C9. For every reply text the caption returned by \<open>parseApiResponse\<close> (either
  variant) is not the empty string. When the caption pattern does not match, it is the
  placeholder. When it matches, the reply reads \<open>pre @ mk @ sp @ cap @ rest\<close> with
  \<open>mk\<close> the marker \<open>CAPTION:\<close> in any letter case at the index of the match,
  \<open>sp\<close> white space and \<open>cap\<close> the text of group 1, and the caption is
  \<open>cap\<close> trimmed when that is not empty and the placeholder otherwise.
\<close>

theorem caption_never_empty:
  "caption (parseApiResponse_A content) \<noteq> [] \<and>
   caption (parseApiResponse_B content) \<noteq> [] \<and>
   (match True caption_re_A content = None \<longrightarrow>
      caption (parseApiResponse_A content) = js ''No caption'') \<and>
   (match True caption_re_B content = None \<longrightarrow>
      caption (parseApiResponse_B content) = js ''No caption generated'') \<and>
   (\<forall>mr. match True caption_re_A content = Some mr \<longrightarrow>
      (\<exists>pre mk sp cap rest. content = pre @ mk @ sp @ cap @ rest \<and> length pre = fst mr \<and>
         map (canonicalize True) mk = js ''CAPTION:'' \<and> (\<forall>c \<in> set sp. isSpace c) \<and>
         group 1 mr = Some cap \<and>
         caption (parseApiResponse_A content)
           = (if trim cap \<noteq> [] then trim cap else js ''No caption''))) \<and>
   (\<forall>mr. match True caption_re_B content = Some mr \<longrightarrow>
      (\<exists>pre mk sp cap rest. content = pre @ mk @ sp @ cap @ rest \<and> length pre = fst mr \<and>
         map (canonicalize True) mk = js ''CAPTION:'' \<and> (\<forall>c \<in> set sp. isSpace c) \<and>
         group 1 mr = Some cap \<and>
         caption (parseApiResponse_B content)
           = (if trim cap \<noteq> [] then trim cap else js ''No caption generated'')))"
proof -
  have A: "\<exists>pre mk sp cap rest. content = pre @ mk @ sp @ cap @ rest \<and> length pre = fst mr \<and>
         map (canonicalize True) mk = js ''CAPTION:'' \<and> (\<forall>c \<in> set sp. isSpace c) \<and>
         group 1 mr = Some cap \<and>
         caption (parseApiResponse_A content)
           = (if trim cap \<noteq> [] then trim cap else js ''No caption'')"
    if m: "match True caption_re_A content = Some mr" for mr
  proof -
    from caption_A_shape [OF m] obtain pre mk sp cap rest where
      s: "content = pre @ mk @ sp @ cap @ rest" "length pre = fst mr"
        "map (canonicalize True) mk = js ''CAPTION:''" "\<forall>c \<in> set sp. isSpace c"
        "group 1 mr = Some cap"
      by (elim exE conjE)
    have "caption (parseApiResponse_A content)
           = (if trim cap \<noteq> [] then trim cap else js ''No caption'')"
      using m s(5) by (simp add: caption_A_cases)
    with s show ?thesis
      by (intro exI conjI) assumption+
  qed
  have B: "\<exists>pre mk sp cap rest. content = pre @ mk @ sp @ cap @ rest \<and> length pre = fst mr \<and>
         map (canonicalize True) mk = js ''CAPTION:'' \<and> (\<forall>c \<in> set sp. isSpace c) \<and>
         group 1 mr = Some cap \<and>
         caption (parseApiResponse_B content)
           = (if trim cap \<noteq> [] then trim cap else js ''No caption generated'')"
    if m: "match True caption_re_B content = Some mr" for mr
  proof -
    from caption_B_shape [OF m] obtain pre mk sp cap rest where
      s: "content = pre @ mk @ sp @ cap @ rest" "length pre = fst mr"
        "map (canonicalize True) mk = js ''CAPTION:''" "\<forall>c \<in> set sp. isSpace c"
        "group 1 mr = Some cap"
      by (elim exE conjE)
    have "caption (parseApiResponse_B content)
           = (if trim cap \<noteq> [] then trim cap else js ''No caption generated'')"
      using m s(5) by (simp add: caption_B_cases)
    with s show ?thesis
      by (intro exI conjI) assumption+
  qed
  show ?thesis
  proof (intro conjI allI impI)
    show "caption (parseApiResponse_A content) \<noteq> []" by (rule caption_A_nonempty)
    show "caption (parseApiResponse_B content) \<noteq> []" by (rule caption_B_nonempty)
    show "caption (parseApiResponse_A content) = js ''No caption''"
      if "match True caption_re_A content = None"
      using that by (simp add: caption_A_cases)
    show "caption (parseApiResponse_B content) = js ''No caption generated''"
      if "match True caption_re_B content = None"
      using that by (simp add: caption_B_cases)
    show "\<exists>pre mk sp cap rest. content = pre @ mk @ sp @ cap @ rest \<and> length pre = fst mr \<and>
         map (canonicalize True) mk = js ''CAPTION:'' \<and> (\<forall>c \<in> set sp. isSpace c) \<and>
         group 1 mr = Some cap \<and>
         caption (parseApiResponse_A content)
           = (if trim cap \<noteq> [] then trim cap else js ''No caption'')"
      if "match True caption_re_A content = Some mr" for mr
      using that by (rule A)
    show "\<exists>pre mk sp cap rest. content = pre @ mk @ sp @ cap @ rest \<and> length pre = fst mr \<and>
         map (canonicalize True) mk = js ''CAPTION:'' \<and> (\<forall>c \<in> set sp. isSpace c) \<and>
         group 1 mr = Some cap \<and>
         caption (parseApiResponse_B content)
           = (if trim cap \<noteq> [] then trim cap else js ''No caption generated'')"
      if "match True caption_re_B content = Some mr" for mr
      using that by (rule B)
  qed
qed

subsection \<open>Greedy and lazy repetition\<close>

lemma rep_greedy_stop: "s = [] \<or> \<not> p (hd s) \<Longrightarrow> rep_greedy p s = [s]"
  by (cases s) auto

lemma rep_greedy_run_first:
  "\<forall>c \<in> set m. p c \<Longrightarrow> t = [] \<or> \<not> p (hd t) \<Longrightarrow> \<exists>ms. rep_greedy p (m @ t) = t # ms"
proof (induction m)
  case Nil
  then show ?case by (simp add: rep_greedy_stop)
next
  case (Cons x m)
  then obtain ms where "rep_greedy p (m @ t) = t # ms" by auto
  with Cons.prems(1) show ?case by simp
qed

lemma rep_greedy_inside:
  "s' \<in> set (rep_greedy p (Y @ t)) \<Longrightarrow> Y \<noteq> [] \<Longrightarrow> \<not> p (last Y) \<Longrightarrow>
     s' \<noteq> [] \<and> hd s' \<in> set Y"
proof (induction Y)
  case Nil
  then show ?case by simp
next
  case (Cons y Y)
  show ?case
  proof (cases "s' = (y # Y) @ t")
    case True
    then show ?thesis by simp
  next
    case False
    with Cons.prems(1) have py: "p y" and in': "s' \<in> set (rep_greedy p (Y @ t))"
      by (auto split: if_splits)
    from py Cons.prems(3) have "Y \<noteq> []" by auto
    with Cons.IH [OF in'] Cons.prems(3) show ?thesis by auto
  qed
qed

lemma rep_lazy_hd: "\<exists>ms. rep_lazy p t = t # ms"
  by (cases t) auto

lemma lazy_skip:
  "\<forall>c \<in> set m. p c \<Longrightarrow> (\<And>k. k < length m \<Longrightarrow> F (drop k m @ t) = []) \<Longrightarrow>
     concat (map F (rep_lazy p (m @ t))) = concat (map F (rep_lazy p t))"
proof (induction m)
  case Nil
  then show ?case by simp
next
  case (Cons x m)
  from Cons.prems(2) [of 0] have "F (x # m @ t) = []" by simp
  moreover have "concat (map F (rep_lazy p (m @ t))) = concat (map F (rep_lazy p t))"
  proof (rule Cons.IH)
    show "\<forall>c \<in> set m. p c" using Cons.prems(1) by simp
    show "F (drop k m @ t) = []" if "k < length m" for k
      using Cons.prems(2) [of "Suc k"] that by simp
  qed
  ultimately show ?case using Cons.prems(1) by simp
qed

lemma trim_id:
  assumes "X \<noteq> []" "\<not> isSpace (hd X)" "\<not> isSpace (last X)"
  shows "trim X = X"
proof -
  have 1: "dropWhile isSpace X = X"
    using assms(2) by (simp add: dropWhile_eq_self_iff)
  have "hd (rev X) = last X" using assms(1) by (simp add: hd_rev)
  then have 2: "dropWhile isSpace (rev X) = rev X"
    using assms(3) by (simp add: dropWhile_eq_self_iff)
  show ?thesis unfolding trim_def 1 2 by simp
qed

lemma trim_leading:
  assumes "\<forall>c \<in> set sp. isSpace c" "X \<noteq> []" "\<not> isSpace (hd X)" "\<not> isSpace (last X)"
  shows "trim (sp @ X) = X"
proof -
  have "dropWhile isSpace (sp @ X) = dropWhile isSpace X"
    using assms(1) by (simp add: dropWhile_append)
  then have "trim (sp @ X) = trim X" unfolding trim_def by (simp only:)
  with assms show ?thesis by (simp add: trim_id)
qed

subsection \<open>Looking for the first match\<close>

lemma Lit_Cat_fail_hd:
  assumes "cs \<noteq> []" and "s = [] \<or> canonicalize ic (hd s) \<noteq> canonicalize ic (hd cs)"
  shows "matches ic (Cat (Lit cs) r) (s, c) = []"
proof -
  have "matches ic (Lit cs) (s, c) = []"
  proof (cases s)
    case Nil
    with assms(1) show ?thesis by simp
  next
    case (Cons x xs)
    with assms obtain d ds where "cs = d # ds" "canonicalize ic x \<noteq> canonicalize ic d"
      by (cases cs) auto
    with Cons show ?thesis by simp
  qed
  then show ?thesis by simp
qed

lemma exec_from_skip:
  "(\<And>k. k < length pre \<Longrightarrow> matches ic r (drop k pre @ s, []) = []) \<Longrightarrow>
     exec_from ic r i (pre @ s) = exec_from ic r (i + length pre) s"
proof (induction pre arbitrary: i)
  case Nil
  then show ?case by simp
next
  case (Cons x pre)
  from Cons.prems [of 0] have "matches ic r (x # pre @ s, []) = []" by simp
  moreover have "exec_from ic r (Suc i) (pre @ s) = exec_from ic r (Suc i + length pre) s"
  proof (rule Cons.IH)
    show "matches ic r (drop k pre @ s, []) = []" if "k < length pre" for k
      using Cons.prems [of "Suc k"] that by simp
  qed
  ultimately show ?case by simp
qed

lemma exec_from_hit:
  "matches ic r (s, []) = (s', caps) # ms \<Longrightarrow>
     exec_from ic r i s = Some (i, take (length s - length s') s, caps)"
  by simp

lemma no_marker_inside:
  assumes noM: "\<not> (\<exists>pre m post. X = pre @ m @ post \<and>
                  map (canonicalize ic) m = map (canonicalize ic) cs)"
    and d: "canonicalize ic d \<notin> set (map (canonicalize ic) cs)"
  shows "matches ic (Cat (Lit cs) r) (drop k X @ d # t, []) = []"
proof (rule ccontr)
  assume "matches ic (Cat (Lit cs) r) (drop k X @ d # t, []) \<noteq> []"
  from marker_needed [OF this] obtain m t' where
    m: "drop k X @ d # t = m @ t'" "map (canonicalize ic) m = map (canonicalize ic) cs"
    by blast
  show False
  proof (cases "length m \<le> length (drop k X)")
    case True
    with m(1) have "m = take (length m) (drop k X)"
      by (metis append_eq_conv_conj take_append diff_is_0_eq take_0 append_Nil2)
    then have "X = take k X @ m @ drop (length m) (drop k X)"
      by (metis append_take_drop_id)
    with m(2) noM show False by blast
  next
    case False
    then have "length (drop k X) < length m" by simp
    with m(1) have "m ! length (drop k X) = d"
      by (metis nth_append nth_append_length)
    with \<open>length (drop k X) < length m\<close> have "d \<in> set m" by (metis nth_mem)
    then have "canonicalize ic d \<in> set (map (canonicalize ic) m)" by simp
    with m(2) d show False by simp
  qed
qed


subsection \<open>The pattern after the marker\<close>

lemma concat_map_Nil: "(\<And>x. x \<in> set xs \<Longrightarrow> f x = []) \<Longrightarrow> concat (map f xs) = []"
  by (induction xs) auto

lemma Lit_match_prefix:
  assumes "map (canonicalize ic) mk' = map (canonicalize ic) mk"
  shows "matches ic (Lit mk) (mk' @ t, c) = [(t, c)]"
proof -
  from assms have "length mk' = length mk" by (rule map_eq_imp_length_eq)
  with assms show ?thesis by simp
qed

lemma Cat_first:
  "matches ic r1 st = y # ys \<Longrightarrow> matches ic r2 y = res # ms \<Longrightarrow>
     \<exists>ms'. matches ic (Cat r1 r2) st = res # ms'"
  by simp

lemma Space_Star_first:
  assumes "\<forall>c \<in> set sp. isSpace c" and "t = [] \<or> \<not> isSpace (hd t)"
  shows "\<exists>ys. matches ic (Rep Space Star) (sp @ t, c) = (t, c) # ys"
proof -
  from assms have "\<forall>c \<in> set sp. in_cls Space c" "t = [] \<or> \<not> in_cls Space (hd t)" by simp_all
  from rep_greedy_run_first [OF this] obtain gs where
    "rep_greedy (in_cls Space) (sp @ t) = t # gs" ..
  then show ?thesis by simp
qed

lemma Group_Lazy_then:
  assumes X: "X \<noteq> []" "\<forall>c \<in> set X. \<not> isLineTerminator c"
    and inside: "\<And>k caps. k < length X \<Longrightarrow> matches ic R3 (drop k X @ tail, caps) = []"
    and tail: "matches ic R3 (tail, [(n, X)]) = res # ms"
  shows "\<exists>ms'. matches ic (Cat (Group n (Rep Dot LazyPlus)) R3) (X @ tail, []) = res # ms'"
proof -
  define g where "g r = (r, [(n, take (length (X @ tail) - length r) (X @ tail))])" for r :: jsstring
  define F where "F r = matches ic R3 (g r)" for r
  obtain x X' where XX: "X = x # X'" using X(1) by (cases X) auto
  have dot: "\<not> isLineTerminator x" "\<forall>c \<in> set X'. in_cls Dot c" using X(2) XX by auto
  have "matches ic (Group n (Rep Dot LazyPlus)) (X @ tail, [])
          = map g (rep_lazy (in_cls Dot) (X' @ tail))"
    unfolding g_def using dot(1) XX by (simp add: comp_def)
  then have "matches ic (Cat (Group n (Rep Dot LazyPlus)) R3) (X @ tail, [])
          = concat (map F (rep_lazy (in_cls Dot) (X' @ tail)))"
    by (simp add: F_def [abs_def] comp_def)
  also have "\<dots> = concat (map F (rep_lazy (in_cls Dot) tail))"
  proof (rule lazy_skip [OF dot(2)])
    fix k assume "k < length X'"
    then have "Suc k < length X" "drop k X' = drop (Suc k) X" using XX by simp_all
    with inside [of "Suc k"] show "F (drop k X' @ tail) = []" by (simp add: F_def g_def)
  qed
  also obtain ls where "rep_lazy (in_cls Dot) tail = tail # ls" using rep_lazy_hd by blast
  then have "concat (map F (rep_lazy (in_cls Dot) tail)) = F tail @ concat (map F ls)" by simp
  also have "F tail = res # ms" using tail by (simp add: F_def g_def)
  finally show ?thesis by simp
qed

lemma lazy_capture:
  assumes mk: "map (canonicalize ic) mk' = map (canonicalize ic) mk"
    and sp: "\<forall>c \<in> set sp. isSpace c"
    and X: "X \<noteq> []" "\<not> isSpace (hd X)" "\<forall>c \<in> set X. \<not> isLineTerminator c"
    and inside: "\<And>k caps. k < length X \<Longrightarrow> matches ic R3 (drop k X @ tail, caps) = []"
    and tail: "matches ic R3 (tail, [(n, X)]) = res # ms"
  shows "\<exists>ms'. matches ic (Cat (Lit mk) (Cat (Rep Space Star) (Cat (Group n (Rep Dot LazyPlus)) R3)))
                 (mk' @ sp @ X @ tail, []) = res # ms'"
proof -
  from Group_Lazy_then [OF X(1) X(3) inside tail] obtain ms2 where
    2: "matches ic (Cat (Group n (Rep Dot LazyPlus)) R3) (X @ tail, []) = res # ms2"
    by blast
  have "hd (X @ tail) = hd X" using X(1) by simp
  with X(2) have "X @ tail = [] \<or> \<not> isSpace (hd (X @ tail))" by simp
  from Space_Star_first [OF sp this] obtain ys where
    1: "matches ic (Rep Space Star) (sp @ X @ tail, []) = (X @ tail, []) # ys" ..
  from Cat_first [OF 1 2] obtain ms1 where
    3: "matches ic (Cat (Rep Space Star) (Cat (Group n (Rep Dot LazyPlus)) R3)) (sp @ X @ tail, [])
          = res # ms1" ..
  have 0: "matches ic (Lit mk) (mk' @ sp @ X @ tail, []) = (sp @ X @ tail, []) # []"
    by (rule Lit_match_prefix [OF mk])
  from Cat_first [OF 0 3] show ?thesis .
qed

lemma Group_Greedy:
  assumes X: "X \<noteq> []" "\<forall>c \<in> set X. \<not> isLineTerminator c"
  shows "\<exists>ms'. matches ic (Group n (Rep Dot Plus)) (X, []) = ([], [(n, X)]) # ms'"
proof -
  define g where "g r = (r, [(n, take (length X - length r) X)])" for r :: jsstring
  obtain x X' where XX: "X = x # X'" using X(1) by (cases X) auto
  have dot: "\<not> isLineTerminator x" "\<forall>c \<in> set X'. in_cls Dot c" using X(2) XX by auto
  from dot(2) obtain ls where ls: "rep_greedy (in_cls Dot) (X' @ []) = [] # ls"
    using rep_greedy_run_first [of X' "in_cls Dot" "[]"] by blast
  have "matches ic (Group n (Rep Dot Plus)) (X, []) = map g (rep_greedy (in_cls Dot) X')"
    unfolding g_def using dot(1) XX by (simp add: comp_def)
  with ls have "matches ic (Group n (Rep Dot Plus)) (X, []) = g [] # map g ls" by simp
  then show ?thesis by (simp add: g_def)
qed

lemma greedy_capture:
  assumes mk: "map (canonicalize ic) mk' = map (canonicalize ic) mk"
    and sp: "\<forall>c \<in> set sp. isSpace c"
    and X: "X \<noteq> []" "\<not> isSpace (hd X)" "\<forall>c \<in> set X. \<not> isLineTerminator c"
  shows "\<exists>ms'. matches ic (Cat (Lit mk) (Cat (Rep Space Star) (Group n (Rep Dot Plus))))
                 (mk' @ sp @ X, []) = ([], [(n, X)]) # ms'"
proof -
  from Group_Greedy [OF X(1) X(3)] obtain ms2 where
    2: "matches ic (Group n (Rep Dot Plus)) (X, []) = ([], [(n, X)]) # ms2" ..
  from X(2) have "X = [] \<or> \<not> isSpace (hd X)" by simp
  from Space_Star_first [OF sp this] obtain ys where
    1: "matches ic (Rep Space Star) (sp @ X, []) = (X, []) # ys" ..
  from Cat_first [OF 1 2] obtain ms1 where
    3: "matches ic (Cat (Rep Space Star) (Group n (Rep Dot Plus))) (sp @ X, []) = ([], [(n, X)]) # ms1" ..
  have 0: "matches ic (Lit mk) (mk' @ sp @ X, []) = (sp @ X, []) # []"
    by (rule Lit_match_prefix [OF mk])
  from Cat_first [OF 0 3] show ?thesis .
qed


subsection \<open>What follows the captured text\<close>

lemma not_upper_case_target:
  "d < 0x41 \<or> 0x7A < d \<Longrightarrow> canonicalize ic x = canonicalize ic d \<longleftrightarrow> x = d"
  unfolding canonicalize_def by (auto; unat_arith)

lemma canon_bar: "canonicalize ic x = canonicalize ic 0x7C \<longleftrightarrow> x = 0x7C"
  by (rule not_upper_case_target) simp

lemma canon_comma: "canonicalize ic x = canonicalize ic 0x2C \<longleftrightarrow> x = 0x2C"
  by (rule not_upper_case_target) simp

lemma js_bar: "js ''|'' = [0x7C]" and js_comma: "js '','' = [0x2C]"
  by (simp_all add: js_def)

lemma Lit1_fail:
  "s = [] \<or> hd s \<noteq> d \<Longrightarrow> d < 0x41 \<or> 0x7A < d \<Longrightarrow> matches ic (Lit [d]) (s, c) = []"
  by (cases s) (auto simp: not_upper_case_target)

lemma spaces_inside:
  assumes "(a, b) \<in> set (matches ic (Rep Space Star) (Y @ t, caps))" "Y \<noteq> []" "\<not> isSpace (last Y)"
  shows "a \<noteq> [] \<and> hd a \<in> set Y"
proof -
  from assms(1) have 1: "a \<in> set (rep_greedy (in_cls Space) (Y @ t))" by auto
  have 2: "\<not> in_cls Space (last Y)" using assms(3) by simp
  from rep_greedy_inside [OF 1 assms(2) 2] show ?thesis .
qed

lemma matches_Cat:
  "matches ic (Cat r1 r2) st = concat (map (matches ic r2) (matches ic r1 st))"
  by simp

lemma spaces_then_fails:
  assumes "\<And>a b. a \<noteq> [] \<Longrightarrow> hd a \<in> set Y \<Longrightarrow> matches ic r (a, b) = []"
    and "Y \<noteq> []" "\<not> isSpace (last Y)"
  shows "matches ic (Cat (Rep Space Star) r) (Y @ t, caps) = []"
  unfolding matches_Cat
proof (rule concat_map_Nil)
  fix y assume y: "y \<in> set (matches ic (Rep Space Star) (Y @ t, caps))"
  obtain a b where ab: "y = (a, b)" by (cases y)
  from spaces_inside [OF y [unfolded ab] assms(2,3)] have "a \<noteq> []" "hd a \<in> set Y" by simp_all
  then show "matches ic r y = []" unfolding ab by (rule assms(1))
qed

lemma tail_A_fails:
  assumes "Y \<noteq> []" "\<not> isSpace (last Y)" "0x7C \<notin> set Y"
  shows "matches ic (Alt (Cat (Rep Space Star) (Lit (js ''|''))) EndOfInput) (Y @ t, caps) = []"
proof -
  have "matches ic (Cat (Rep Space Star) (Lit [0x7C])) (Y @ t, caps) = []"
  proof (rule spaces_then_fails [OF _ assms(1,2)])
    fix a :: jsstring and b assume "a \<noteq> []" "hd a \<in> set Y"
    with assms(3) have "a = [] \<or> hd a \<noteq> 0x7C" by auto
    then show "matches ic (Lit [0x7C]) (a, b) = []" by (rule Lit1_fail) simp
  qed
  moreover have "matches ic EndOfInput (Y @ t, caps) = []" using assms(1) by simp
  ultimately show ?thesis by (simp only: matches.simps(4) js_bar append_Nil)
qed

lemma tail_B_fails:
  assumes "Y \<noteq> []" "\<not> isSpace (last Y)" "0x7C \<notin> set Y"
  shows "matches ic (Cat (Rep Space Star) (Group 2 (Alt (Lit (js ''|'')) EndOfInput))) (Y @ t, caps) = []"
proof (rule spaces_then_fails [OF _ assms(1,2)])
  fix a :: jsstring and b assume a: "a \<noteq> []" "hd a \<in> set Y"
  with assms(3) have "a = [] \<or> hd a \<noteq> 0x7C" by auto
  then have L: "matches ic (Lit [0x7C]) (a, b) = []" by (rule Lit1_fail) simp
  have E: "matches ic EndOfInput (a, b) = []" using a(1) by simp
  show "matches ic (Group 2 (Alt (Lit (js ''|'')) EndOfInput)) (a, b) = []"
    by (simp only: matches.simps(4,5) js_bar L E append_Nil list.map)
qed

lemma tail_K_fails:
  assumes "Y \<noteq> []" "\<not> isSpace (last Y)"
  shows "matches ic (Cat (Rep Space Star) EndOfInput) (Y @ t, caps) = []"
proof (rule spaces_then_fails [OF _ assms(1,2)])
  fix a :: jsstring and b :: captures assume "a \<noteq> []"
  then show "matches ic EndOfInput (a, b) = []" by simp
qed

lemma comma_fails:
  assumes "Y \<noteq> []" "\<not> isSpace (last Y)" "0x2C \<notin> set Y"
  shows "matches ic comma_re (Y @ t, caps) = []"
  unfolding comma_re_def
proof (rule spaces_then_fails [OF _ assms(1,2)])
  fix a :: jsstring and b assume "a \<noteq> []" "hd a \<in> set Y"
  with assms(3) have "a = [] \<or> hd a \<noteq> 0x2C" by auto
  then have "matches ic (Lit [0x2C]) (a, b) = []" by (rule Lit1_fail) simp
  then show "matches ic (Cat (Lit (js '','')) (Rep Space Star)) (a, b) = []"
    by (simp only: matches_Cat js_comma list.map concat.simps)
qed

lemma space_20: "isSpace 0x20" and not_space_bar: "\<not> isSpace 0x7C"
  and not_space_comma: "\<not> isSpace 0x2C"
  by (simp_all add: isSpace_def isWhiteSpace_def isLineTerminator_def)

lemma tail_A_at_bar:
  "\<exists>ms. matches ic (Alt (Cat (Rep Space Star) (Lit (js ''|''))) EndOfInput) (0x20 # 0x7C # t, caps)
          = (t, caps) # ms"
  by (simp add: js_bar space_20 not_space_bar canonicalize_def)

lemma tail_A_at_end:
  "matches ic (Alt (Cat (Rep Space Star) (Lit (js ''|''))) EndOfInput) ([], caps) = [([], caps)]"
  by (simp add: js_bar)

lemma tail_B_at_bar:
  "\<exists>ms. matches ic (Cat (Rep Space Star) (Group 2 (Alt (Lit (js ''|'')) EndOfInput)))
          (0x20 # 0x7C # t, caps) = (t, (2, [0x7C]) # caps) # ms"
  by (simp add: js_bar space_20 not_space_bar canonicalize_def)

lemma tail_B_at_end:
  "matches ic (Cat (Rep Space Star) (Group 2 (Alt (Lit (js ''|'')) EndOfInput))) ([], caps)
     = [([], (2, []) # caps)]"
  by (simp add: js_bar)

lemma tail_K_at_end:
  "matches ic (Cat (Rep Space Star) EndOfInput) ([], caps) = [([], caps)]"
  by simp

lemma suffix_facts:
  assumes "k < length X"
  shows "drop k X \<noteq> []" "last (drop k X) = last X" "set (drop k X) \<subseteq> set X"
  using assms by (simp_all add: set_drop_subset)


subsection \<open>Replies with a well-formed caption\<close>

lemma js_append: "js (u @ v) = js u @ js v"
  by (simp add: js_def)

lemma caption_A_found:
  assumes X: "X \<noteq> []" "\<not> isSpace (hd X)" "\<not> isSpace (last X)"
      "\<forall>c \<in> set X. \<not> isLineTerminator c \<and> c \<noteq> 0x7C"
    and tail: "tail = [] \<or> (\<exists>t. tail = 0x20 # 0x7C # t)"
  shows "\<exists>mr. match True caption_re_A (js ''CAPTION: '' @ X @ tail) = Some mr \<and> group 1 mr = Some X"
proof -
  let ?R3 = "Alt (Cat (Rep Space Star) (Lit (js ''|''))) EndOfInput"
  have inside: "matches True ?R3 (drop k X @ tail, caps) = []" if "k < length X" for k caps
  proof (rule tail_A_fails)
    show "drop k X \<noteq> []" "\<not> isSpace (last (drop k X))" "0x7C \<notin> set (drop k X)"
      using suffix_facts [OF that] X by auto
  qed
  from tail obtain res ms where res: "matches True ?R3 (tail, [(1, X)]) = res # ms" "snd res = [(1, X)]"
    using tail_A_at_bar [of True _ "[(1, X)]"] tail_A_at_end [of True "[(1, X)]"] by fastforce
  have "\<forall>c \<in> set [0x20]. isSpace c" by (simp add: space_20)
  from lazy_capture [OF refl this X(1,2) _ inside res(1), of "js ''CAPTION:''"] X(4) obtain ms' where
    "matches True caption_re_A (js ''CAPTION:'' @ [0x20] @ X @ tail, []) = res # ms'"
    unfolding caption_re_A_def by auto
  moreover have "js ''CAPTION: '' = js ''CAPTION:'' @ [0x20]" by (simp add: js_def)
  ultimately have "matches True caption_re_A (js ''CAPTION: '' @ X @ tail, []) = (fst res, snd res) # ms'"
    by simp
  from exec_from_hit [OF this] res(2) show ?thesis by (simp add: match_def group_def)
qed

lemma caption_B_found:
  assumes X: "X \<noteq> []" "\<not> isSpace (hd X)" "\<not> isSpace (last X)"
      "\<forall>c \<in> set X. \<not> isLineTerminator c \<and> c \<noteq> 0x7C"
    and tail: "tail = [] \<or> (\<exists>t. tail = 0x20 # 0x7C # t)"
  shows "\<exists>mr. match True caption_re_B (js ''CAPTION: '' @ X @ tail) = Some mr \<and> group 1 mr = Some X"
proof -
  let ?R3 = "Cat (Rep Space Star) (Group 2 (Alt (Lit (js ''|'')) EndOfInput))"
  have inside: "matches True ?R3 (drop k X @ tail, caps) = []" if "k < length X" for k caps
  proof (rule tail_B_fails)
    show "drop k X \<noteq> []" "\<not> isSpace (last (drop k X))" "0x7C \<notin> set (drop k X)"
      using suffix_facts [OF that] X by auto
  qed
  from tail obtain res ms where res: "matches True ?R3 (tail, [(1, X)]) = res # ms"
      "map_of (snd res) 1 = Some X"
    using tail_B_at_bar [of True _ "[(1, X)]"] tail_B_at_end [of True "[(1, X)]"] by fastforce
  have "\<forall>c \<in> set [0x20]. isSpace c" by (simp add: space_20)
  from lazy_capture [OF refl this X(1,2) _ inside res(1), of "js ''CAPTION:''"] X(4) obtain ms' where
    "matches True caption_re_B (js ''CAPTION:'' @ [0x20] @ X @ tail, []) = res # ms'"
    unfolding caption_re_B_def by auto
  moreover have "js ''CAPTION: '' = js ''CAPTION:'' @ [0x20]" by (simp add: js_def)
  ultimately have "matches True caption_re_B (js ''CAPTION: '' @ X @ tail, []) = (fst res, snd res) # ms'"
    by simp
  from exec_from_hit [OF this] res(2) show ?thesis by (simp add: match_def group_def)
qed

lemma caption_A_value:
  assumes "match True caption_re_A content = Some mr" "group 1 mr = Some X"
    "X \<noteq> []" "\<not> isSpace (hd X)" "\<not> isSpace (last X)"
  shows "caption (parseApiResponse_A content) = X"
  using assms by (simp add: caption_A_cases trim_id)

lemma caption_B_value:
  assumes "match True caption_re_B content = Some mr" "group 1 mr = Some X"
    "X \<noteq> []" "\<not> isSpace (hd X)" "\<not> isSpace (last X)"
  shows "caption (parseApiResponse_B content) = X"
  using assms by (simp add: caption_B_cases trim_id)


subsection \<open>Finding the keywords\<close>

lemma exec_from_skip_chars:
  assumes "cs \<noteq> []" and "\<forall>x \<in> set pre. canonicalize ic x \<noteq> canonicalize ic (hd cs)"
  shows "exec_from ic (Cat (Lit cs) r) i (pre @ s) = exec_from ic (Cat (Lit cs) r) (i + length pre) s"
proof (rule exec_from_skip)
  fix k assume k: "k < length pre"
  then have "hd (drop k pre @ s) = pre ! k" by (simp add: hd_append hd_drop_conv_nth)
  with k assms(2) have "canonicalize ic (hd (drop k pre @ s)) \<noteq> canonicalize ic (hd cs)" by simp
  then have "drop k pre @ s = [] \<or> canonicalize ic (hd (drop k pre @ s)) \<noteq> canonicalize ic (hd cs)"
    by simp
  from Lit_Cat_fail_hd [OF assms(1) this] show "matches ic (Cat (Lit cs) r) (drop k pre @ s, []) = []" .
qed

lemma skip_to_keywords:
  assumes noM: "\<not> (\<exists>pre m post. X = pre @ m @ post \<and> map (canonicalize True) m = js ''KEYWORDS:'')"
  shows "exec_from True (Cat (Lit (js ''KEYWORDS:'')) r) 0 (js ''CAPTION: '' @ X @ js '' | '' @ s)
           = exec_from True (Cat (Lit (js ''KEYWORDS:'')) r) (12 + length X) s"
proof -
  let ?r = "Cat (Lit (js ''KEYWORDS:'')) r"
  have ne: "js ''KEYWORDS:'' \<noteq> []" by (simp add: js_def)
  have 1: "exec_from True ?r 0 (js ''CAPTION: '' @ X @ js '' | '' @ s)
             = exec_from True ?r (0 + length (js ''CAPTION: '')) (X @ js '' | '' @ s)"
    by (rule exec_from_skip_chars [OF ne]) (simp add: js_def canonicalize_def)
  have bar: "js '' | '' = 0x20 # js ''| ''" by (simp add: js_def)
  have 2: "exec_from True ?r (0 + length (js ''CAPTION: '')) (X @ js '' | '' @ s)
             = exec_from True ?r (0 + length (js ''CAPTION: '') + length X) (js '' | '' @ s)"
  proof (rule exec_from_skip)
    fix k assume "k < length X"
    have "matches True ?r (drop k X @ 0x20 # (js ''| '' @ s), []) = []"
    proof (rule no_marker_inside)
      show "\<not> (\<exists>pre m post. X = pre @ m @ post \<and>
              map (canonicalize True) m = map (canonicalize True) (js ''KEYWORDS:''))"
        using noM by (simp add: canon_KEYWORDS)
      show "canonicalize True 0x20 \<notin> set (map (canonicalize True) (js ''KEYWORDS:''))"
        by (simp add: js_def canonicalize_def)
    qed
    then show "matches True ?r (drop k X @ js '' | '' @ s, []) = []" by (simp add: bar)
  qed
  have 3: "exec_from True ?r (0 + length (js ''CAPTION: '') + length X) (js '' | '' @ s)
             = exec_from True ?r (0 + length (js ''CAPTION: '') + length X + length (js '' | '')) s"
    by (rule exec_from_skip_chars [OF ne]) (simp add: js_def canonicalize_def)
  have idx: "0 + length (js ''CAPTION: '') + length X + length (js '' | '') = 12 + length X"
    by (simp add: js_def)
  show ?thesis by (rule trans [OF trans [OF 1 2] 3 [unfolded idx]])
qed

lemma keywords_A_found:
  assumes noM: "\<not> (\<exists>pre m post. X = pre @ m @ post \<and> map (canonicalize True) m = js ''KEYWORDS:'')"
    and K: "K \<noteq> []" "\<not> isSpace (hd K)" "\<forall>c \<in> set K. \<not> isLineTerminator c"
  shows "\<exists>mr. match True keywords_re_A (js ''CAPTION: '' @ X @ js '' | KEYWORDS: '' @ K) = Some mr \<and>
              group 1 mr = Some K"
proof -
  have "\<forall>c \<in> set [0x20]. isSpace c" by (simp add: space_20)
  from greedy_capture [OF refl this K, of True "js ''KEYWORDS:''" 1] obtain ms where
    "matches True keywords_re_A (js ''KEYWORDS:'' @ [0x20] @ K, []) = ([], [(1, K)]) # ms"
    unfolding keywords_re_A_def by blast
  from exec_from_hit [OF this, of "12 + length X"] obtain mr where
    "exec_from True keywords_re_A (12 + length X) (js ''KEYWORDS:'' @ [0x20] @ K) = Some mr"
    "group 1 mr = Some K"
    by (simp add: group_def)
  moreover have "js ''CAPTION: '' @ X @ js '' | KEYWORDS: '' @ K
      = js ''CAPTION: '' @ X @ js '' | '' @ (js ''KEYWORDS:'' @ [0x20] @ K)"
    by (simp add: js_def)
  ultimately show ?thesis
    using skip_to_keywords [OF noM, of "Cat (Rep Space Star) (Group 1 (Rep Dot Plus))" "js ''KEYWORDS:'' @ [0x20] @ K"]
    by (simp add: match_def keywords_re_A_def)
qed

lemma keywords_B_found:
  assumes noM: "\<not> (\<exists>pre m post. X = pre @ m @ post \<and> map (canonicalize True) m = js ''KEYWORDS:'')"
    and K: "K \<noteq> []" "\<not> isSpace (hd K)" "\<forall>c \<in> set K. \<not> isLineTerminator c"
      "\<not> isSpace (last K)"
  shows "\<exists>mr. match True keywords_re_B (js ''CAPTION: '' @ X @ js '' | KEYWORDS: '' @ K) = Some mr \<and>
              group 1 mr = Some K"
proof -
  let ?R3 = "Cat (Rep Space Star) EndOfInput"
  have inside: "matches True ?R3 (drop k K @ [], caps) = []" if "k < length K" for k caps
  proof (rule tail_K_fails)
    show "drop k K \<noteq> []" "\<not> isSpace (last (drop k K))"
      using suffix_facts [OF that] K by auto
  qed
  have "\<forall>c \<in> set [0x20]. isSpace c" by (simp add: space_20)
  from lazy_capture [OF refl this K(1,2,3) inside tail_K_at_end, of "js ''KEYWORDS:''"] obtain ms where
    "matches True keywords_re_B (js ''KEYWORDS:'' @ [0x20] @ K, []) = ([], [(1, K)]) # ms"
    unfolding keywords_re_B_def by auto
  from exec_from_hit [OF this, of "12 + length X"] obtain mr where
    "exec_from True keywords_re_B (12 + length X) (js ''KEYWORDS:'' @ [0x20] @ K) = Some mr"
    "group 1 mr = Some K"
    by (simp add: group_def)
  moreover have "js ''CAPTION: '' @ X @ js '' | KEYWORDS: '' @ K
      = js ''CAPTION: '' @ X @ js '' | '' @ (js ''KEYWORDS:'' @ [0x20] @ K)"
    by (simp add: js_def)
  ultimately show ?thesis
    using skip_to_keywords [OF noM, of "Cat (Rep Space Star) (Cat (Group 1 (Rep Dot LazyPlus)) (Cat (Rep Space Star) EndOfInput))" "js ''KEYWORDS:'' @ [0x20] @ K"]
    by (simp add: match_def keywords_re_B_def)
qed

subsection \<open>Splitting the keywords\<close>

lemma split_loop_skip:
  "w \<noteq> [] \<Longrightarrow> \<not> isSpace (last w) \<Longrightarrow> 0x2C \<notin> set w \<Longrightarrow>
     split_loop comma_re piece (w @ t) = split_loop comma_re (piece @ w) t"
proof (induction w arbitrary: piece)
  case Nil
  then show ?case by simp
next
  case (Cons x w)
  have "matches False comma_re ((x # w) @ t, []) = []"
    using Cons.prems by (rule comma_fails)
  then have step: "split_loop comma_re piece ((x # w) @ t) = split_loop comma_re (piece @ [x]) (w @ t)"
    by (simp add: split_loop.simps)
  show ?case
  proof (cases "w = []")
    case True
    with step show ?thesis by simp
  next
    case False
    with Cons.prems have "\<not> isSpace (last w)" "0x2C \<notin> set w" by auto
    from Cons.IH [OF False this, of "piece @ [x]"] step show ?thesis by simp
  qed
qed

lemma comma_at_separator:
  assumes "b \<noteq> []" "\<not> isSpace (hd b)"
  shows "\<exists>ms. matches False comma_re (0x2C # 0x20 # b @ t, []) = (b @ t, []) # ms"
proof -
  have "hd (b @ t) = hd b" using assms(1) by simp
  with assms(2) have "b @ t = [] \<or> \<not> isSpace (hd (b @ t))" by simp
  moreover have "\<forall>c \<in> set [0x20]. isSpace c" by (simp add: space_20)
  ultimately obtain ys where
    3: "matches False (Rep Space Star) ([0x20] @ b @ t, []) = (b @ t, []) # ys"
    using Space_Star_first by blast
  have 2: "matches False (Lit (js '','')) (0x2C # 0x20 # b @ t, []) = ([0x20] @ b @ t, []) # []"
    by (simp add: js_comma)
  from Cat_first [OF 2 3] obtain ms2 where
    23: "matches False (Cat (Lit (js '','')) (Rep Space Star)) (0x2C # 0x20 # b @ t, [])
           = (b @ t, []) # ms2" ..
  have 1: "matches False (Rep Space Star) (0x2C # 0x20 # b @ t, []) = (0x2C # 0x20 # b @ t, []) # []"
    by (simp add: not_space_comma)
  from Cat_first [OF 1 23] show ?thesis unfolding comma_re_def .
qed

lemma split_loop_separator:
  assumes "b \<noteq> []" "\<not> isSpace (hd b)"
  shows "split_loop comma_re piece (0x2C # 0x20 # b @ t) = piece # split_loop comma_re [] (b @ t)"
proof -
  from comma_at_separator [OF assms] obtain ms where
    "matches False comma_re (0x2C # 0x20 # b @ t, []) = (b @ t, []) # ms" ..
  then show ?thesis by (simp add: split_loop.simps)
qed

lemma split_re_three:
  assumes "\<forall>k \<in> set [a, b, c]. k \<noteq> [] \<and> \<not> isSpace (hd k) \<and> \<not> isSpace (last k) \<and> 0x2C \<notin> set k"
  shows "split_re comma_re (a @ js '', '' @ b @ js '', '' @ c) = [a, b, c]"
proof -
  have sep: "js '', '' = [0x2C, 0x20]" by (simp add: js_def)
  from assms have a: "a \<noteq> []" "\<not> isSpace (last a)" "0x2C \<notin> set a"
    and b: "b \<noteq> []" "\<not> isSpace (hd b)" "\<not> isSpace (last b)" "0x2C \<notin> set b"
    and c: "c \<noteq> []" "\<not> isSpace (hd c)" "\<not> isSpace (last c)" "0x2C \<notin> set c"
    by simp_all
  have "split_loop comma_re [] (a @ 0x2C # 0x20 # b @ 0x2C # 0x20 # c @ [])
      = split_loop comma_re ([] @ a) (0x2C # 0x20 # b @ 0x2C # 0x20 # c @ [])"
    using a by (rule split_loop_skip)
  also have "\<dots> = ([] @ a) # split_loop comma_re [] (b @ 0x2C # 0x20 # c @ [])"
    using b(1,2) by (rule split_loop_separator)
  also have "split_loop comma_re [] (b @ 0x2C # 0x20 # c @ [])
      = split_loop comma_re ([] @ b) (0x2C # 0x20 # c @ [])"
    using b(1,3,4) by (rule split_loop_skip)
  also have "\<dots> = ([] @ b) # split_loop comma_re [] (c @ [])"
    using c(1,2) by (rule split_loop_separator)
  also have "split_loop comma_re [] (c @ []) = split_loop comma_re ([] @ c) []"
    using c(1,3,4) by (rule split_loop_skip)
  finally have "split_loop comma_re [] (a @ 0x2C # 0x20 # b @ 0x2C # 0x20 # c) = [a, b, c]"
    by (simp add: split_loop.simps(1))
  with a(1) show ?thesis by (simp add: split_re_def sep)
qed

lemma split_on_skip:
  "d \<notin> set w \<Longrightarrow> split_on d piece (w @ t) = split_on d (piece @ w) t"
  by (induction w arbitrary: piece) auto

lemma split_str_three:
  assumes "0x2C \<notin> set a" "0x2C \<notin> set b" "0x2C \<notin> set c"
  shows "split_str 0x2C (a @ js '', '' @ b @ js '', '' @ c) = [a, 0x20 # b, 0x20 # c]"
proof -
  have sep: "js '', '' = [0x2C, 0x20]" by (simp add: js_def)
  have "split_on 0x2C [] (a @ 0x2C # (0x20 # b) @ 0x2C # (0x20 # c) @ [])
      = split_on 0x2C ([] @ a) (0x2C # (0x20 # b) @ 0x2C # (0x20 # c) @ [])"
    using assms(1) by (rule split_on_skip)
  also have "\<dots> = a # split_on 0x2C [] ((0x20 # b) @ 0x2C # (0x20 # c) @ [])" by simp
  also have "split_on 0x2C [] ((0x20 # b) @ 0x2C # (0x20 # c) @ [])
      = split_on 0x2C ([] @ (0x20 # b)) (0x2C # (0x20 # c) @ [])"
    by (rule split_on_skip) (use assms(2) in simp)
  also have "\<dots> = (0x20 # b) # split_on 0x2C [] ((0x20 # c) @ [])" by simp
  also have "split_on 0x2C [] ((0x20 # c) @ []) = split_on 0x2C ([] @ (0x20 # c)) []"
    by (rule split_on_skip) (use assms(3) in simp)
  finally show ?thesis by (simp add: split_str_def sep)
qed


subsection \<open>The well-formed reply\<close>

lemma no_marker_without_first:
  assumes "mk \<noteq> []" and "\<forall>x \<in> set s. canonicalize ic x \<noteq> hd mk"
  shows "\<not> (\<exists>pre m post. s = pre @ m @ post \<and> map (canonicalize ic) m = mk)"
proof
  assume "\<exists>pre m post. s = pre @ m @ post \<and> map (canonicalize ic) m = mk"
  then obtain pre m post where m: "s = pre @ m @ post" "map (canonicalize ic) m = mk" by blast
  with assms(1) obtain x xs where "m = x # xs" by (cases m) auto
  with m have "x \<in> set s" "canonicalize ic x = hd mk" by auto
  with assms(2) show False by blast
qed

text \<open>
  C1. For a reply \<open>CAPTION: X | KEYWORDS: a, b, c\<close> both variants of
  \<open>parseApiResponse\<close> return the caption \<open>X\<close> and the keywords
  \<open>[a, b, c]\<close>. Well-formed means that the fields do not hold their own
  delimiters: \<open>X\<close> and the keywords are not empty, neither start nor end with white
  space and have no line terminator; \<open>X\<close> has no \<open>|\<close> and no marker
  \<open>KEYWORDS:\<close> (in any letter case), a keyword has no comma. The witness is the
  reply of the specification, with the one-letter fields \<open>X\<close>, \<open>a\<close>, \<open>b\<close>
  and \<open>c\<close>.
\<close>

theorem parse_well_formed_reply:
  assumes reply:
      "reply = js ''CAPTION: '' @ X @ js '' | KEYWORDS: '' @ a @ js '', '' @ b @ js '', '' @ c"
    and X: "X \<noteq> []" "\<not> isSpace (hd X)" "\<not> isSpace (last X)"
      "\<forall>ch \<in> set X. \<not> isLineTerminator ch \<and> ch \<noteq> 0x7C"
    and noM: "\<not> (\<exists>pre m post. X = pre @ m @ post \<and>
                  map (canonicalize True) m = js ''KEYWORDS:'')"
    and ks: "\<forall>k \<in> set [a, b, c]. k \<noteq> [] \<and> \<not> isSpace (hd k) \<and> \<not> isSpace (last k) \<and>
               (\<forall>ch \<in> set k. \<not> isLineTerminator ch \<and> ch \<noteq> 0x2C)"
  shows "parseApiResponse_A reply = \<lparr>caption = X, keywords_list = [a, b, c]\<rparr> \<and>
         parseApiResponse_B reply = \<lparr>caption = X, keywords_list = [a, b, c]\<rparr>"
proof -
  define K where "K = a @ js '', '' @ b @ js '', '' @ c"
  have sep: "js '', '' = [0x2C, 0x20]" by (simp add: js_def)
  from ks have a: "a \<noteq> []" "\<not> isSpace (hd a)" "\<not> isSpace (last a)" "0x2C \<notin> set a"
      "\<forall>ch \<in> set a. \<not> isLineTerminator ch"
    and b: "b \<noteq> []" "\<not> isSpace (hd b)" "\<not> isSpace (last b)" "0x2C \<notin> set b"
      "\<forall>ch \<in> set b. \<not> isLineTerminator ch"
    and c: "c \<noteq> []" "\<not> isSpace (hd c)" "\<not> isSpace (last c)" "0x2C \<notin> set c"
      "\<forall>ch \<in> set c. \<not> isLineTerminator ch"
    by auto
  have K: "K \<noteq> []" "\<not> isSpace (hd K)" "\<forall>ch \<in> set K. \<not> isLineTerminator ch" "\<not> isSpace (last K)"
    using a b c by (auto simp: K_def sep isLineTerminator_def)
  have reply: "reply = js ''CAPTION: '' @ X @ js '' | KEYWORDS: '' @ K"
    by (simp add: reply K_def)
  have tail: "js '' | KEYWORDS: '' @ K = [] \<or> (\<exists>t. js '' | KEYWORDS: '' @ K = 0x20 # 0x7C # t)"
    by (simp add: js_def)
  from caption_A_found [OF X tail] obtain mr where
    "match True caption_re_A (js ''CAPTION: '' @ X @ js '' | KEYWORDS: '' @ K) = Some mr"
    "group 1 mr = Some X" by blast
  from caption_A_value [OF this X(1,2,3)]
  have cA: "caption (parseApiResponse_A reply) = X" unfolding reply .
  from caption_B_found [OF X tail] obtain mr where
    "match True caption_re_B (js ''CAPTION: '' @ X @ js '' | KEYWORDS: '' @ K) = Some mr"
    "group 1 mr = Some X" by blast
  from caption_B_value [OF this X(1,2,3)]
  have cB: "caption (parseApiResponse_B reply) = X" unfolding reply .
  have wf: "\<forall>k \<in> set [a, b, c]. k \<noteq> [] \<and> \<not> isSpace (hd k) \<and> \<not> isSpace (last k) \<and> 0x2C \<notin> set k"
    using a b c by simp
  from keywords_A_found [OF noM K(1,2,3)] obtain mr where
    "match True keywords_re_A (js ''CAPTION: '' @ X @ js '' | KEYWORDS: '' @ K) = Some mr"
    "group 1 mr = Some K" by blast
  then have "keywords_list (parseApiResponse_A (js ''CAPTION: '' @ X @ js '' | KEYWORDS: '' @ K))
      = split_re comma_re K"
    by (simp add: keywords_A_cases)
  also have "\<dots> = [a, b, c]" unfolding K_def using wf by (rule split_re_three)
  finally have kA: "keywords_list (parseApiResponse_A reply) = [a, b, c]" unfolding reply .
  from keywords_B_found [OF noM K] obtain mr where
    "match True keywords_re_B (js ''CAPTION: '' @ X @ js '' | KEYWORDS: '' @ K) = Some mr"
    "group 1 mr = Some K" by blast
  then have "keywords_list (parseApiResponse_B (js ''CAPTION: '' @ X @ js '' | KEYWORDS: '' @ K))
      = filter (\<lambda>k. k \<noteq> []) (map trim (split_str 0x2C K))"
    by (simp add: keywords_B_cases)
  also have "split_str 0x2C K = [a, 0x20 # b, 0x20 # c]"
    unfolding K_def using a(4) b(4) c(4) by (rule split_str_three)
  also have "map trim [a, 0x20 # b, 0x20 # c] = [a, b, c]"
    using trim_id [OF a(1,2,3)] trim_leading [of "[0x20]" b] trim_leading [of "[0x20]" c] b c
    by (simp add: space_20)
  also have "filter (\<lambda>k. k \<noteq> []) [a, b, c] = [a, b, c]" using a(1) b(1) c(1) by simp
  finally have kB: "keywords_list (parseApiResponse_B reply) = [a, b, c]" unfolding reply .
  from cA kA cB kB show ?thesis by simp
qed

theorem parse_well_formed_reply_witness:
  "parseApiResponse_A (js ''CAPTION: X | KEYWORDS: a, b, c'')
     = \<lparr>caption = js ''X'', keywords_list = [js ''a'', js ''b'', js ''c'']\<rparr> \<and>
   parseApiResponse_B (js ''CAPTION: X | KEYWORDS: a, b, c'')
     = \<lparr>caption = js ''X'', keywords_list = [js ''a'', js ''b'', js ''c'']\<rparr>"
proof -
  have X: "js ''X'' \<noteq> []" "\<not> isSpace (hd (js ''X''))" "\<not> isSpace (last (js ''X''))"
    "\<forall>ch \<in> set (js ''X''). \<not> isLineTerminator ch \<and> ch \<noteq> 0x7C"
    by (simp_all add: js_def isSpace_def isWhiteSpace_def isLineTerminator_def)
  have noM: "\<not> (\<exists>pre m post. js ''X'' = pre @ m @ post \<and>
      map (canonicalize True) m = js ''KEYWORDS:'')"
    by (rule no_marker_without_first) (simp_all add: js_def canonicalize_def)
  have ks: "\<forall>k \<in> set [js ''a'', js ''b'', js ''c'']. k \<noteq> [] \<and> \<not> isSpace (hd k) \<and>
      \<not> isSpace (last k) \<and> (\<forall>ch \<in> set k. \<not> isLineTerminator ch \<and> ch \<noteq> 0x2C)"
    by (simp add: js_def isSpace_def isWhiteSpace_def isLineTerminator_def)
  have eq: "js ''CAPTION: X | KEYWORDS: a, b, c'' = js ''CAPTION: '' @ js ''X''
      @ js '' | KEYWORDS: '' @ js ''a'' @ js '', '' @ js ''b'' @ js '', '' @ js ''c''"
    by (simp add: js_def)
  from parse_well_formed_reply [OF eq X noM ks] show ?thesis .
qed

subsection \<open>Markers in any letter case\<close>

lemma lower_to_upper:
  fixes x :: code_unit
  assumes "0x61 \<le> x" "x \<le> 0x7A"
  shows "0x41 \<le> x - 0x20" "x - 0x20 \<le> 0x5A"
  using assms by unat_arith+

lemma upper_to_lower:
  fixes u :: code_unit
  assumes "0x41 \<le> u" "u \<le> 0x5A"
  shows "0x61 \<le> u + 0x20" "u + 0x20 \<le> 0x7A"
proof -
  from assms have b: "65 \<le> unat u" "unat u \<le> 90" by (simp_all add: word_le_nat_alt)
  then have "unat u + unat (0x20 :: code_unit) < 2 ^ LENGTH(16)" by simp
  then have "unat (u + 0x20) = unat u + unat (0x20 :: code_unit)"
    by (simp only: unat_add_lem)
  then have "unat (u + 0x20) = unat u + 32" by simp
  with b show "0x61 \<le> u + 0x20" "u + 0x20 \<le> 0x7A" by (simp_all add: word_le_nat_alt)
qed

lemma any_case_char:
  assumes "u < 0x61 \<or> 0x7A < u"
  shows "(x = u \<or> (0x41 \<le> u \<and> u \<le> 0x5A \<and> x = u + 0x20)) \<longleftrightarrow> canonicalize True x = u"
proof
  assume "x = u \<or> (0x41 \<le> u \<and> u \<le> 0x5A \<and> x = u + 0x20)"
  then show "canonicalize True x = u"
  proof
    assume "x = u"
    with assms show ?thesis by (auto simp: canonicalize_def)
  next
    assume a: "0x41 \<le> u \<and> u \<le> 0x5A \<and> x = u + 0x20"
    with upper_to_lower [of u] have "0x61 \<le> x" "x \<le> 0x7A" by simp_all
    with a show ?thesis by (simp add: canonicalize_def)
  qed
next
  assume c: "canonicalize True x = u"
  show "x = u \<or> (0x41 \<le> u \<and> u \<le> 0x5A \<and> x = u + 0x20)"
  proof (cases "0x61 \<le> x \<and> x \<le> 0x7A")
    case True
    with c have "u = x - 0x20" by (simp add: canonicalize_def)
    with lower_to_upper [of x] True show ?thesis by simp
  next
    case False
    with c show ?thesis by (auto simp: canonicalize_def)
  qed
qed

lemma any_case_canon:
  "\<forall>u \<in> set mk. u < 0x61 \<or> 0x7A < u \<Longrightarrow>
     any_case m mk \<longleftrightarrow> map (canonicalize True) m = mk"
proof (induction m arbitrary: mk)
  case Nil
  then show ?case by auto
next
  case (Cons x m)
  show ?case
  proof (cases mk)
    case Nil
    then show ?thesis by simp
  next
    case (Cons u us)
    with Cons.prems have "u < 0x61 \<or> 0x7A < u" "\<forall>u \<in> set us. u < 0x61 \<or> 0x7A < u" by simp_all
    with Cons.IH [of us] any_case_char [of u x] Cons show ?thesis by simp
  qed
qed

lemma marker_letters:
  "\<forall>u \<in> set (js ''CAPTION:''). u < 0x61 \<or> 0x7A < u"
  "\<forall>u \<in> set (js ''KEYWORDS:''). u < 0x61 \<or> 0x7A < u"
  by (simp_all add: js_def)

lemma any_case_CAPTION: "any_case m (js ''CAPTION:'') \<longleftrightarrow> map (canonicalize True) m = js ''CAPTION:''"
  by (rule any_case_canon) (rule marker_letters)

lemma any_case_KEYWORDS: "any_case m (js ''KEYWORDS:'') \<longleftrightarrow> map (canonicalize True) m = js ''KEYWORDS:''"
  by (rule any_case_canon) (rule marker_letters)


subsection \<open>The first marker of a reply\<close>

lemma no_marker_before:
  assumes noM: "\<not> (\<exists>u m v. pre = u @ m @ v \<and> map (canonicalize ic) m = map (canonicalize ic) cs)"
    and mk: "map (canonicalize ic) mk = map (canonicalize ic) cs"
    and cs: "cs \<noteq> []" "canonicalize ic (last cs) \<notin> set (map (canonicalize ic) (butlast cs))"
    and k: "k < length pre"
  shows "matches ic (Cat (Lit cs) r) (drop k pre @ mk @ rest, []) = []"
proof (rule ccontr)
  let ?P = "drop k pre"
  assume "matches ic (Cat (Lit cs) r) (?P @ mk @ rest, []) \<noteq> []"
  from marker_needed [OF this] obtain m t' where
    m: "?P @ mk @ rest = m @ t'" "map (canonicalize ic) m = map (canonicalize ic) cs"
    by (elim exE conjE)
  from m(2) mk have len: "length m = length cs" "length mk = length cs"
    by (metis length_map)+
  from k have P: "?P \<noteq> []" by simp
  show False
  proof (cases "length m \<le> length ?P")
    case True
    from m(1) have "take (length m) (?P @ mk @ rest) = take (length m) (m @ t')"
      by (simp only:)
    with True have "m = take (length m) ?P" by simp
    then have "pre = take k pre @ m @ drop (length m) ?P"
      by (metis append_take_drop_id)
    with m(2) noM show False by blast
  next
    case False
    define j where "j = length m - length ?P"
    from False P len have j: "0 < j" "j < length mk" by (simp_all add: j_def)
    from m(1) have "take (length m) (?P @ mk @ rest) = m" by simp
    then have mj: "m = ?P @ take j mk" using False j(2) by (simp add: j_def)
    from j have tj: "take j mk \<noteq> []" by auto
    with mj have "last m = last (take j mk)" by simp
    also have "\<dots> = mk ! (j - 1)" using j tj by (simp add: last_conv_nth min_def)
    finally have lm: "last m = mk ! (j - 1)" .
    from j have jb: "j - 1 < length (butlast mk)" by simp
    then have "butlast mk ! (j - 1) \<in> set (butlast mk)" by (rule nth_mem)
    moreover have "butlast mk ! (j - 1) = mk ! (j - 1)" using jb by (rule nth_butlast)
    ultimately have "canonicalize ic (last m) \<in> set (map (canonicalize ic) (butlast mk))"
      using lm by simp
    moreover have "map (canonicalize ic) (butlast mk) = map (canonicalize ic) (butlast cs)"
      using mk by (simp add: map_butlast)
    moreover have "m \<noteq> []" using len(1) cs(1) by auto
    then have "canonicalize ic (last m) = last (map (canonicalize ic) m)"
      by (simp add: last_map)
    then have "canonicalize ic (last m) = canonicalize ic (last cs)"
      using m(2) cs(1) by (simp add: last_map)
    ultimately show False using cs(2) by simp
  qed
qed


lemma tail_A_after_spaces:
  assumes "\<forall>c \<in> set ws. isSpace c"
  shows "\<exists>ms. matches ic (Alt (Cat (Rep Space Star) (Lit (js ''|''))) EndOfInput)
               (ws @ 0x7C # t, caps) = (t, caps) # ms"
proof -
  have "0x7C # t = [] \<or> \<not> isSpace (hd (0x7C # t))" by (simp add: not_space_bar)
  from Space_Star_first [OF assms this] obtain ys where
    1: "matches ic (Rep Space Star) (ws @ 0x7C # t, caps) = (0x7C # t, caps) # ys" ..
  have 2: "matches ic (Lit (js ''|'')) (0x7C # t, caps) = (t, caps) # []" by (simp add: js_bar)
  from Cat_first [OF 1 2] obtain ms' where
    "matches ic (Cat (Rep Space Star) (Lit (js ''|''))) (ws @ 0x7C # t, caps) = (t, caps) # ms'" ..
  then have "matches ic (Alt (Cat (Rep Space Star) (Lit (js ''|''))) EndOfInput) (ws @ 0x7C # t, caps)
      = (t, caps) # (ms' @ matches ic EndOfInput (ws @ 0x7C # t, caps))"
    by (simp only: matches.simps(4) append_Cons)
  then show ?thesis ..
qed

lemma tail_B_after_spaces:
  assumes "\<forall>c \<in> set ws. isSpace c"
  shows "\<exists>ms. matches ic (Cat (Rep Space Star) (Group 2 (Alt (Lit (js ''|'')) EndOfInput)))
               (ws @ 0x7C # t, caps) = (t, (2, [0x7C]) # caps) # ms"
proof -
  have "0x7C # t = [] \<or> \<not> isSpace (hd (0x7C # t))" by (simp add: not_space_bar)
  from Space_Star_first [OF assms this] obtain ys where
    1: "matches ic (Rep Space Star) (ws @ 0x7C # t, caps) = (0x7C # t, caps) # ys" ..
  have 2: "matches ic (Group 2 (Alt (Lit (js ''|'')) EndOfInput)) (0x7C # t, caps)
      = (t, (2, [0x7C]) # caps) # []"
    by (simp add: js_bar)
  from Cat_first [OF 1 2] show ?thesis .
qed

lemma CAPTION_last:
  "js ''CAPTION:'' \<noteq> []"
  "canonicalize True (last (js ''CAPTION:''))
     \<notin> set (map (canonicalize True) (butlast (js ''CAPTION:'')))"
  by (simp_all add: js_def canonicalize_def)

lemma caption_A_first_marker:
  assumes pre: "\<not> (\<exists>u m v. pre = u @ m @ v \<and> map (canonicalize True) m = js ''CAPTION:'')"
    and mk: "map (canonicalize True) mk = js ''CAPTION:''"
    and sp: "\<forall>c \<in> set sp. isSpace c"
    and X: "X \<noteq> []" "\<not> isSpace (hd X)" "\<not> isSpace (last X)"
      "\<forall>c \<in> set X. \<not> isLineTerminator c \<and> c \<noteq> 0x7C"
    and tail: "tail = [] \<or> (\<exists>ws t. tail = ws @ 0x7C # t \<and> (\<forall>c \<in> set ws. isSpace c))"
  shows "caption (parseApiResponse_A (pre @ mk @ sp @ X @ tail)) = X"
proof -
  let ?R3 = "Alt (Cat (Rep Space Star) (Lit (js ''|''))) EndOfInput"
  let ?s = "mk @ sp @ X @ tail"
  have inside: "matches True ?R3 (drop k X @ tail, caps) = []" if "k < length X" for k caps
  proof (rule tail_A_fails)
    show "drop k X \<noteq> []" "\<not> isSpace (last (drop k X))" "0x7C \<notin> set (drop k X)"
      using suffix_facts [OF that] X by auto
  qed
  have "\<exists>s' ms. matches True ?R3 (tail, [(1, X)]) = (s', [(1, X)]) # ms"
    using tail
  proof
    assume "tail = []"
    then show ?thesis using tail_A_at_end [of True "[(1, X)]"] by simp
  next
    assume "\<exists>ws t. tail = ws @ 0x7C # t \<and> (\<forall>c \<in> set ws. isSpace c)"
    then obtain ws t where t: "tail = ws @ 0x7C # t" "\<forall>c \<in> set ws. isSpace c"
      by (elim exE conjE)
    from tail_A_after_spaces [OF t(2), of True t "[(1, X)]"] obtain ms where
      "matches True ?R3 (ws @ 0x7C # t, [(1, X)]) = (t, [(1, X)]) # ms" ..
    then show ?thesis unfolding t(1) by (intro exI)
  qed
  then obtain s' ms where res: "matches True ?R3 (tail, [(1, X)]) = (s', [(1, X)]) # ms"
    by (elim exE)
  have mk': "map (canonicalize True) mk = map (canonicalize True) (js ''CAPTION:'')"
    unfolding canon_CAPTION by (rule mk)
  have pre': "\<not> (\<exists>u m v. pre = u @ m @ v \<and>
      map (canonicalize True) m = map (canonicalize True) (js ''CAPTION:''))"
    unfolding canon_CAPTION by (rule pre)
  have dots: "\<forall>c \<in> set X. \<not> isLineTerminator c" using X(4) by simp
  from lazy_capture [OF mk' sp X(1,2) dots inside res] obtain ms' where
    hit: "matches True caption_re_A (?s, []) = (s', [(1, X)]) # ms'"
    unfolding caption_re_A_def ..
  have skip: "exec_from True caption_re_A 0 (pre @ ?s)
      = exec_from True caption_re_A (0 + length pre) ?s"
  proof (rule exec_from_skip)
    fix k assume "k < length pre"
    then show "matches True caption_re_A (drop k pre @ ?s, []) = []"
      unfolding caption_re_A_def by (rule no_marker_before [OF pre' mk' CAPTION_last])
  qed
  have m: "match True caption_re_A (pre @ ?s)
      = Some (0 + length pre, take (length ?s - length s') ?s, [(1, X)])"
    unfolding match_def by (rule trans [OF skip exec_from_hit [OF hit]])
  have g: "group 1 (0 + length pre, take (length ?s - length s') ?s, [(1, X)]) = Some X"
    by (simp add: group_def)
  from caption_A_value [OF m g X(1,2,3)] show ?thesis .
qed

lemma caption_B_first_marker:
  assumes pre: "\<not> (\<exists>u m v. pre = u @ m @ v \<and> map (canonicalize True) m = js ''CAPTION:'')"
    and mk: "map (canonicalize True) mk = js ''CAPTION:''"
    and sp: "\<forall>c \<in> set sp. isSpace c"
    and X: "X \<noteq> []" "\<not> isSpace (hd X)" "\<not> isSpace (last X)"
      "\<forall>c \<in> set X. \<not> isLineTerminator c \<and> c \<noteq> 0x7C"
    and tail: "tail = [] \<or> (\<exists>ws t. tail = ws @ 0x7C # t \<and> (\<forall>c \<in> set ws. isSpace c))"
  shows "caption (parseApiResponse_B (pre @ mk @ sp @ X @ tail)) = X"
proof -
  let ?R3 = "Cat (Rep Space Star) (Group 2 (Alt (Lit (js ''|'')) EndOfInput))"
  let ?s = "mk @ sp @ X @ tail"
  have inside: "matches True ?R3 (drop k X @ tail, caps) = []" if "k < length X" for k caps
  proof (rule tail_B_fails)
    show "drop k X \<noteq> []" "\<not> isSpace (last (drop k X))" "0x7C \<notin> set (drop k X)"
      using suffix_facts [OF that] X by auto
  qed
  have "\<exists>s' g ms. matches True ?R3 (tail, [(1, X)]) = (s', [(2, g), (1, X)]) # ms"
    using tail
  proof
    assume "tail = []"
    then show ?thesis using tail_B_at_end [of True "[(1, X)]"] by simp
  next
    assume "\<exists>ws t. tail = ws @ 0x7C # t \<and> (\<forall>c \<in> set ws. isSpace c)"
    then obtain ws t where t: "tail = ws @ 0x7C # t" "\<forall>c \<in> set ws. isSpace c"
      by (elim exE conjE)
    from tail_B_after_spaces [OF t(2), of True t "[(1, X)]"] obtain ms where
      "matches True ?R3 (ws @ 0x7C # t, [(1, X)]) = (t, [(2, [0x7C]), (1, X)]) # ms" ..
    then show ?thesis unfolding t(1) by (intro exI)
  qed
  then obtain s' g ms where
    res: "matches True ?R3 (tail, [(1, X)]) = (s', [(2, g), (1, X)]) # ms"
    by (elim exE)
  have mk': "map (canonicalize True) mk = map (canonicalize True) (js ''CAPTION:'')"
    unfolding canon_CAPTION by (rule mk)
  have pre': "\<not> (\<exists>u m v. pre = u @ m @ v \<and>
      map (canonicalize True) m = map (canonicalize True) (js ''CAPTION:''))"
    unfolding canon_CAPTION by (rule pre)
  have dots: "\<forall>c \<in> set X. \<not> isLineTerminator c" using X(4) by simp
  from lazy_capture [OF mk' sp X(1,2) dots inside res] obtain ms' where
    hit: "matches True caption_re_B (?s, []) = (s', [(2, g), (1, X)]) # ms'"
    unfolding caption_re_B_def ..
  have skip: "exec_from True caption_re_B 0 (pre @ ?s)
      = exec_from True caption_re_B (0 + length pre) ?s"
  proof (rule exec_from_skip)
    fix k assume "k < length pre"
    then show "matches True caption_re_B (drop k pre @ ?s, []) = []"
      unfolding caption_re_B_def by (rule no_marker_before [OF pre' mk' CAPTION_last])
  qed
  have m: "match True caption_re_B (pre @ ?s)
      = Some (0 + length pre, take (length ?s - length s') ?s, [(2, g), (1, X)])"
    unfolding match_def by (rule trans [OF skip exec_from_hit [OF hit]])
  have g: "group 1 (0 + length pre, take (length ?s - length s') ?s, [(2, g), (1, X)]) = Some X"
    by (simp add: group_def)
  from caption_B_value [OF m g X(1,2,3)] show ?thesis .
qed


subsection \<open>Replies without keywords\<close>

lemma keywords_absent:
  assumes "\<not> (\<exists>pre m post. content = pre @ m @ post \<and>
              map (canonicalize True) m = js ''KEYWORDS:'')"
  shows "keywords_list (parseApiResponse_A content) = []"
    and "keywords_list (parseApiResponse_B content) = []"
proof -
  from assms have n: "\<not> (\<exists>pre m post. content = pre @ m @ post \<and>
      map (canonicalize True) m = map (canonicalize True) (js ''KEYWORDS:''))"
    by (simp add: canon_KEYWORDS)
  have "match True keywords_re_A content = None"
    unfolding keywords_re_A_def using n by (rule no_marker_no_match)
  then show "keywords_list (parseApiResponse_A content) = []" by (simp add: keywords_A_cases)
  have "match True keywords_re_B content = None"
    unfolding keywords_re_B_def using n by (rule no_marker_no_match)
  then show "keywords_list (parseApiResponse_B content) = []" by (simp add: keywords_B_cases)
qed

lemma caption_absent:
  assumes "\<not> (\<exists>pre m post. content = pre @ m @ post \<and>
              map (canonicalize True) m = js ''CAPTION:'')"
  shows "caption (parseApiResponse_A content) = js ''No caption''"
    and "caption (parseApiResponse_B content) = js ''No caption generated''"
proof -
  from assms have n: "\<not> (\<exists>pre m post. content = pre @ m @ post \<and>
      map (canonicalize True) m = map (canonicalize True) (js ''CAPTION:''))"
    by (simp add: canon_CAPTION)
  have "match True caption_re_A content = None"
    unfolding caption_re_A_def using n by (rule no_marker_no_match)
  then show "caption (parseApiResponse_A content) = js ''No caption''"
    by (simp add: caption_A_cases)
  have "match True caption_re_B content = None"
    unfolding caption_re_B_def using n by (rule no_marker_no_match)
  then show "caption (parseApiResponse_B content) = js ''No caption generated''"
    by (simp add: caption_B_cases)
qed

lemma caption_A_extracted:
  "caption (parseApiResponse_A content) = js ''No caption'' \<or>
   (\<exists>pre mk sp cap rest. content = pre @ mk @ sp @ cap @ rest \<and>
      map (canonicalize True) mk = js ''CAPTION:'' \<and> (\<forall>c \<in> set sp. isSpace c) \<and>
      caption (parseApiResponse_A content) = trim cap)"
proof (cases "match True caption_re_A content")
  case None
  then show ?thesis by (simp add: caption_A_cases)
next
  case (Some mr)
  from caption_A_shape [OF Some] obtain pre mk sp cap rest where
    s: "content = pre @ mk @ sp @ cap @ rest" "map (canonicalize True) mk = js ''CAPTION:''"
      "\<forall>c \<in> set sp. isSpace c" "group 1 mr = Some cap"
    by (elim exE conjE)
  show ?thesis
  proof (cases "trim cap = []")
    case True
    with Some s(4) show ?thesis by (simp add: caption_A_cases)
  next
    case False
    with Some s(4) have "caption (parseApiResponse_A content) = trim cap"
      by (simp add: caption_A_cases)
    with s(1,2,3) have "\<exists>pre mk sp cap rest. content = pre @ mk @ sp @ cap @ rest \<and>
      map (canonicalize True) mk = js ''CAPTION:'' \<and> (\<forall>c \<in> set sp. isSpace c) \<and>
      caption (parseApiResponse_A content) = trim cap"
      by (intro exI conjI) assumption+
    then show ?thesis ..
  qed
qed

lemma caption_B_extracted:
  "caption (parseApiResponse_B content) = js ''No caption generated'' \<or>
   (\<exists>pre mk sp cap rest. content = pre @ mk @ sp @ cap @ rest \<and>
      map (canonicalize True) mk = js ''CAPTION:'' \<and> (\<forall>c \<in> set sp. isSpace c) \<and>
      caption (parseApiResponse_B content) = trim cap)"
proof (cases "match True caption_re_B content")
  case None
  then show ?thesis by (simp add: caption_B_cases)
next
  case (Some mr)
  from caption_B_shape [OF Some] obtain pre mk sp cap rest where
    s: "content = pre @ mk @ sp @ cap @ rest" "map (canonicalize True) mk = js ''CAPTION:''"
      "\<forall>c \<in> set sp. isSpace c" "group 1 mr = Some cap"
    by (elim exE conjE)
  show ?thesis
  proof (cases "trim cap = []")
    case True
    with Some s(4) show ?thesis by (simp add: caption_B_cases)
  next
    case False
    with Some s(4) have "caption (parseApiResponse_B content) = trim cap"
      by (simp add: caption_B_cases)
    with s(1,2,3) have "\<exists>pre mk sp cap rest. content = pre @ mk @ sp @ cap @ rest \<and>
      map (canonicalize True) mk = js ''CAPTION:'' \<and> (\<forall>c \<in> set sp. isSpace c) \<and>
      caption (parseApiResponse_B content) = trim cap"
      by (intro exI conjI) assumption+
    then show ?thesis ..
  qed
qed

text \<open>
  C6, as the code has it. For a reply without the marker \<open>KEYWORDS:\<close> in any
  letter case both variants return the empty keyword list. The caption is the
  placeholder when the reply has no marker \<open>CAPTION:\<close> in any letter case either.
  When the first such marker of the reply is followed by white space and a well-formed
  text \<open>X\<close> (not empty, no white space at either end, no line terminator, no
  \<open>|\<close>), and \<open>X\<close> ends the reply or is followed by white space and \<open>|\<close>,
  the caption is \<open>X\<close>. In every case the caption is the placeholder or the trimmed
  text \<open>cap\<close> that follows a marker \<open>CAPTION:\<close> and white space in the reply.
  The first reply of the witness has its marker in small letters and not at the start.
\<close>

theorem reply_without_keywords:
  assumes "\<not> (\<exists>pre m post. content = pre @ m @ post \<and> any_case m (js ''KEYWORDS:''))"
  shows "keywords_list (parseApiResponse_A content) = [] \<and>
         keywords_list (parseApiResponse_B content) = [] \<and>
         (\<not> (\<exists>pre m post. content = pre @ m @ post \<and> any_case m (js ''CAPTION:'')) \<longrightarrow>
            caption (parseApiResponse_A content) = js ''No caption'' \<and>
            caption (parseApiResponse_B content) = js ''No caption generated'') \<and>
         (\<forall>pre mk sp X tail.
            content = pre @ mk @ sp @ X @ tail \<and> any_case mk (js ''CAPTION:'') \<and>
            \<not> (\<exists>u m v. pre = u @ m @ v \<and> any_case m (js ''CAPTION:'')) \<and>
            (\<forall>c \<in> set sp. isSpace c) \<and>
            X \<noteq> [] \<and> \<not> isSpace (hd X) \<and> \<not> isSpace (last X) \<and>
            (\<forall>ch \<in> set X. \<not> isLineTerminator ch \<and> ch \<noteq> 0x7C) \<and>
            (tail = [] \<or> (\<exists>ws t. tail = ws @ 0x7C # t \<and> (\<forall>c \<in> set ws. isSpace c))) \<longrightarrow>
            caption (parseApiResponse_A content) = X \<and>
            caption (parseApiResponse_B content) = X) \<and>
         (caption (parseApiResponse_A content) = js ''No caption'' \<or>
          (\<exists>pre mk sp cap rest. content = pre @ mk @ sp @ cap @ rest \<and>
             any_case mk (js ''CAPTION:'') \<and> (\<forall>c \<in> set sp. isSpace c) \<and>
             caption (parseApiResponse_A content) = trim cap)) \<and>
         (caption (parseApiResponse_B content) = js ''No caption generated'' \<or>
          (\<exists>pre mk sp cap rest. content = pre @ mk @ sp @ cap @ rest \<and>
             any_case mk (js ''CAPTION:'') \<and> (\<forall>c \<in> set sp. isSpace c) \<and>
             caption (parseApiResponse_B content) = trim cap))"
proof -
  from assms have noK: "\<not> (\<exists>pre m post. content = pre @ m @ post \<and>
      map (canonicalize True) m = js ''KEYWORDS:'')"
    unfolding any_case_KEYWORDS .
  show ?thesis
    unfolding any_case_CAPTION
  proof (intro conjI allI impI)
    show "keywords_list (parseApiResponse_A content) = []"
      using noK by (rule keywords_absent(1))
    show "keywords_list (parseApiResponse_B content) = []"
      using noK by (rule keywords_absent(2))
    show "caption (parseApiResponse_A content) = js ''No caption''"
      if "\<not> (\<exists>pre m post. content = pre @ m @ post \<and> map (canonicalize True) m = js ''CAPTION:'')"
      using that by (rule caption_absent(1))
    show "caption (parseApiResponse_B content) = js ''No caption generated''"
      if "\<not> (\<exists>pre m post. content = pre @ m @ post \<and> map (canonicalize True) m = js ''CAPTION:'')"
      using that by (rule caption_absent(2))
    show "caption (parseApiResponse_A content) = X"
      if h: "content = pre @ mk @ sp @ X @ tail \<and> map (canonicalize True) mk = js ''CAPTION:'' \<and>
        \<not> (\<exists>u m v. pre = u @ m @ v \<and> map (canonicalize True) m = js ''CAPTION:'') \<and>
        (\<forall>c \<in> set sp. isSpace c) \<and>
        X \<noteq> [] \<and> \<not> isSpace (hd X) \<and> \<not> isSpace (last X) \<and>
        (\<forall>ch \<in> set X. \<not> isLineTerminator ch \<and> ch \<noteq> 0x7C) \<and>
        (tail = [] \<or> (\<exists>ws t. tail = ws @ 0x7C # t \<and> (\<forall>c \<in> set ws. isSpace c)))"
      for pre mk sp X tail
    proof -
      note r = h [THEN conjunct2]
      note r2 = r [THEN conjunct2]
      note r3 = r2 [THEN conjunct2]
      note r4 = r3 [THEN conjunct2]
      note r5 = r4 [THEN conjunct2]
      note r6 = r5 [THEN conjunct2]
      note r7 = r6 [THEN conjunct2]
      show ?thesis
        unfolding h [THEN conjunct1]
        by (rule caption_A_first_marker [OF r2 [THEN conjunct1] r [THEN conjunct1]
              r3 [THEN conjunct1] r4 [THEN conjunct1] r5 [THEN conjunct1] r6 [THEN conjunct1]
              r7 [THEN conjunct1] r7 [THEN conjunct2]])
    qed
    show "caption (parseApiResponse_B content) = X"
      if h: "content = pre @ mk @ sp @ X @ tail \<and> map (canonicalize True) mk = js ''CAPTION:'' \<and>
        \<not> (\<exists>u m v. pre = u @ m @ v \<and> map (canonicalize True) m = js ''CAPTION:'') \<and>
        (\<forall>c \<in> set sp. isSpace c) \<and>
        X \<noteq> [] \<and> \<not> isSpace (hd X) \<and> \<not> isSpace (last X) \<and>
        (\<forall>ch \<in> set X. \<not> isLineTerminator ch \<and> ch \<noteq> 0x7C) \<and>
        (tail = [] \<or> (\<exists>ws t. tail = ws @ 0x7C # t \<and> (\<forall>c \<in> set ws. isSpace c)))"
      for pre mk sp X tail
    proof -
      note r = h [THEN conjunct2]
      note r2 = r [THEN conjunct2]
      note r3 = r2 [THEN conjunct2]
      note r4 = r3 [THEN conjunct2]
      note r5 = r4 [THEN conjunct2]
      note r6 = r5 [THEN conjunct2]
      note r7 = r6 [THEN conjunct2]
      show ?thesis
        unfolding h [THEN conjunct1]
        by (rule caption_B_first_marker [OF r2 [THEN conjunct1] r [THEN conjunct1]
              r3 [THEN conjunct1] r4 [THEN conjunct1] r5 [THEN conjunct1] r6 [THEN conjunct1]
              r7 [THEN conjunct1] r7 [THEN conjunct2]])
    qed
    show "caption (parseApiResponse_A content) = js ''No caption'' \<or>
            (\<exists>pre mk sp cap rest. content = pre @ mk @ sp @ cap @ rest \<and>
               map (canonicalize True) mk = js ''CAPTION:'' \<and> (\<forall>c \<in> set sp. isSpace c) \<and>
               caption (parseApiResponse_A content) = trim cap)"
      by (rule caption_A_extracted)
    show "caption (parseApiResponse_B content) = js ''No caption generated'' \<or>
            (\<exists>pre mk sp cap rest. content = pre @ mk @ sp @ cap @ rest \<and>
               map (canonicalize True) mk = js ''CAPTION:'' \<and> (\<forall>c \<in> set sp. isSpace c) \<and>
               caption (parseApiResponse_B content) = trim cap)"
      by (rule caption_B_extracted)
  qed
qed

theorem reply_without_keywords_witness:
  "keywords_list (parseApiResponse_A (js ''Hi - caption:  A dog | x'')) = [] \<and>
   keywords_list (parseApiResponse_B (js ''Hi - caption:  A dog | x'')) = [] \<and>
   caption (parseApiResponse_A (js ''Hi - caption:  A dog | x'')) = js ''A dog'' \<and>
   caption (parseApiResponse_B (js ''Hi - caption:  A dog | x'')) = js ''A dog'' \<and>
   keywords_list (parseApiResponse_A (js ''hello'')) = [] \<and>
   keywords_list (parseApiResponse_B (js ''hello'')) = [] \<and>
   caption (parseApiResponse_A (js ''hello'')) = js ''No caption'' \<and>
   caption (parseApiResponse_B (js ''hello'')) = js ''No caption generated''"
proof -
  let ?r = "js ''Hi - caption:  A dog | x''"
  have k1: "\<not> (\<exists>pre m post. ?r = pre @ m @ post \<and> any_case m (js ''KEYWORDS:''))"
    unfolding any_case_KEYWORDS
    by (rule no_marker_without_first) (simp_all add: js_def canonicalize_def)
  have k2: "\<not> (\<exists>pre m post. js ''hello'' = pre @ m @ post \<and> any_case m (js ''KEYWORDS:''))"
    unfolding any_case_KEYWORDS
    by (rule no_marker_without_first) (simp_all add: js_def canonicalize_def)
  have c2: "\<not> (\<exists>pre m post. js ''hello'' = pre @ m @ post \<and> any_case m (js ''CAPTION:''))"
    unfolding any_case_CAPTION
    by (rule no_marker_without_first) (simp_all add: js_def canonicalize_def)
  have p1: "\<not> (\<exists>u m v. js ''Hi - '' = u @ m @ v \<and> any_case m (js ''CAPTION:''))"
    unfolding any_case_CAPTION
    by (rule no_marker_without_first) (simp_all add: js_def canonicalize_def)
  have e: "?r = js ''Hi - '' @ js ''caption:'' @ js ''  '' @ js ''A dog'' @ js '' | x''"
    by (simp add: js_def)
  have mk: "any_case (js ''caption:'') (js ''CAPTION:'')" by (simp add: js_def)
  have sp: "\<forall>c \<in> set (js ''  ''). isSpace c" by (simp add: js_def space_20)
  have X: "js ''A dog'' \<noteq> []" "\<not> isSpace (hd (js ''A dog''))" "\<not> isSpace (last (js ''A dog''))"
    "\<forall>ch \<in> set (js ''A dog''). \<not> isLineTerminator ch \<and> ch \<noteq> 0x7C"
    by (simp_all add: js_def isSpace_def isWhiteSpace_def isLineTerminator_def)
  have "js '' | x'' = [0x20] @ 0x7C # js '' x'' \<and> (\<forall>c \<in> set [0x20]. isSpace c)"
    by (simp add: js_def space_20)
  then have "\<exists>ws t. js '' | x'' = ws @ 0x7C # t \<and> (\<forall>c \<in> set ws. isSpace c)"
    by (intro exI)
  then have tl: "js '' | x'' = [] \<or>
      (\<exists>ws t. js '' | x'' = ws @ 0x7C # t \<and> (\<forall>c \<in> set ws. isSpace c))" ..
  note t1 = reply_without_keywords [OF k1]
  note t2 = reply_without_keywords [OF k2]
  note cap = t1 [THEN conjunct2, THEN conjunct2, THEN conjunct2, THEN conjunct1, rule_format,
      of "js ''Hi - ''" "js ''caption:''" "js ''  ''" "js ''A dog''" "js '' | x''"]
  have c1: "caption (parseApiResponse_A ?r) = js ''A dog'' \<and>
      caption (parseApiResponse_B ?r) = js ''A dog''"
    by (rule cap) (intro conjI e mk p1 sp X tl)
  note ph = t2 [THEN conjunct2, THEN conjunct2, THEN conjunct1, rule_format, OF c2]
  from t1 [THEN conjunct1] t1 [THEN conjunct2, THEN conjunct1] c1
    t2 [THEN conjunct1] t2 [THEN conjunct2, THEN conjunct1] ph
  show ?thesis by (intro conjI) (erule conjunct1 conjunct2 | assumption)+
qed

lemma match_keywords_a_A:
  "match True keywords_re_A (js ''keywords: a'') = Some (0, js ''keywords: a'', [(1, js ''a'')])"
  by (simp add: match_def keywords_re_A_def js_def canonicalize_def isSpace_def isWhiteSpace_def
      isLineTerminator_def)

lemma match_keywords_a_B:
  "match True keywords_re_B (js ''keywords: a'') = Some (0, js ''keywords: a'', [(1, js ''a'')])"
  by (simp add: match_def keywords_re_B_def js_def canonicalize_def isSpace_def isWhiteSpace_def
      isLineTerminator_def)

lemma split_a:
  "split_re comma_re (js ''a'') = [js ''a'']"
  "filter (\<lambda>k. k \<noteq> []) (map trim (split_str 0x2C (js ''a''))) = [js ''a'']"
  by (simp_all add: split_re_def split_loop.simps comma_re_def split_str_def trim_def js_def
      canonicalize_def isSpace_def isWhiteSpace_def isLineTerminator_def)

text \<open>
  C6 as stated fails for a marker in small letters: the reply \<open>keywords: a\<close> does
  not contain \<open>KEYWORDS:\<close>, and both variants return the keyword \<open>a\<close>, the
  patterns having the flag \<open>i\<close>.
\<close>

theorem lower_case_marker_counterexample:
  "keywords_list (parseApiResponse_A (js ''keywords: a'')) = [js ''a''] \<and>
   keywords_list (parseApiResponse_B (js ''keywords: a'')) = [js ''a''] \<and>
   \<not> (\<exists>pre post. js ''keywords: a'' = pre @ js ''KEYWORDS:'' @ post)"
proof (intro conjI)
  show "keywords_list (parseApiResponse_A (js ''keywords: a'')) = [js ''a'']"
    by (simp add: keywords_A_cases match_keywords_a_A group_def split_a)
  show "keywords_list (parseApiResponse_B (js ''keywords: a'')) = [js ''a'']"
    by (simp add: keywords_B_cases match_keywords_a_B group_def split_a)
  have no: "\<not> (\<exists>pre m post. js ''keywords: a'' = pre @ m @ post \<and>
      map (canonicalize False) m = js ''KEYWORDS:'')"
    by (rule no_marker_without_first) (simp_all add: js_def canonicalize_def)
  have same: "map (canonicalize False) m = m" for m
    by (induction m) (simp_all add: canonicalize_def)
  show "\<not> (\<exists>pre post. js ''keywords: a'' = pre @ js ''KEYWORDS:'' @ post)"
  proof
    assume "\<exists>pre post. js ''keywords: a'' = pre @ js ''KEYWORDS:'' @ post"
    then obtain pre post where eq: "js ''keywords: a'' = pre @ js ''KEYWORDS:'' @ post"
      by (elim exE)
    have "js ''keywords: a'' = pre @ js ''KEYWORDS:'' @ post \<and>
        map (canonicalize False) (js ''KEYWORDS:'') = js ''KEYWORDS:''"
      by (rule conjI [OF eq same])
    then have "\<exists>pre m post. js ''keywords: a'' = pre @ m @ post \<and>
        map (canonicalize False) m = js ''KEYWORDS:''"
      by (intro exI)
    with no show False ..
  qed
qed


lemma match_CAPTION_X_A:
  "match True caption_re_A (js ''CAPTION: X'') = Some (0, js ''CAPTION: X'', [(1, js ''X'')])"
  by (simp add: match_def caption_re_A_def js_def canonicalize_def isSpace_def isWhiteSpace_def
      isLineTerminator_def)

lemma match_CAPTION_X_B:
  "match True caption_re_B (js ''CAPTION: X'')
     = Some (0, js ''CAPTION: X'', [(2, []), (1, js ''X'')])"
  by (simp add: match_def caption_re_B_def js_def canonicalize_def isSpace_def isWhiteSpace_def
      isLineTerminator_def)

lemma no_match_hello_B: "match True caption_re_B (js ''hello'') = None"
  by (simp add: match_def caption_re_B_def js_def)

theorem caption_never_empty_witness:
  "match True caption_re_A (js ''hello'') = None \<and>
   caption (parseApiResponse_A (js ''hello'')) = js ''No caption'' \<and>
   match True caption_re_B (js ''hello'') = None \<and>
   caption (parseApiResponse_B (js ''hello'')) = js ''No caption generated'' \<and>
   match True caption_re_A (js ''CAPTION: X'') = Some (0, js ''CAPTION: X'', [(1, js ''X'')]) \<and>
   caption (parseApiResponse_A (js ''CAPTION: X'')) = js ''X'' \<and>
   match True caption_re_B (js ''CAPTION: X'')
     = Some (0, js ''CAPTION: X'', [(2, []), (1, js ''X'')]) \<and>
   caption (parseApiResponse_B (js ''CAPTION: X'')) = js ''X''"
proof -
  have t: "trim (js ''X'') = js ''X''" "js ''X'' \<noteq> []"
    by (simp_all add: trim_def js_def isSpace_def isWhiteSpace_def isLineTerminator_def)
  have gA: "group 1 (0, js ''CAPTION: X'', [(1, js ''X'')]) = Some (js ''X'')"
    and gB: "group 1 (0, js ''CAPTION: X'', [(2, []), (1, js ''X'')]) = Some (js ''X'')"
    by (simp_all add: group_def)
  from caption_never_empty [of "js ''hello''"] no_match_hello_A no_match_hello_B
  have h: "caption (parseApiResponse_A (js ''hello'')) = js ''No caption''"
    "caption (parseApiResponse_B (js ''hello'')) = js ''No caption generated''"
    by blast+
  from caption_never_empty [of "js ''CAPTION: X''"] match_CAPTION_X_A
  obtain capA where "group 1 (0, js ''CAPTION: X'', [(1, js ''X'')]) = Some capA"
    "caption (parseApiResponse_A (js ''CAPTION: X''))
       = (if trim capA \<noteq> [] then trim capA else js ''No caption'')"
    by blast
  with gA t have xA: "caption (parseApiResponse_A (js ''CAPTION: X'')) = js ''X''" by simp
  from caption_never_empty [of "js ''CAPTION: X''"] match_CAPTION_X_B
  obtain capB where "group 1 (0, js ''CAPTION: X'', [(2, []), (1, js ''X'')]) = Some capB"
    "caption (parseApiResponse_B (js ''CAPTION: X''))
       = (if trim capB \<noteq> [] then trim capB else js ''No caption generated'')"
    by blast
  with gB t have xB: "caption (parseApiResponse_B (js ''CAPTION: X'')) = js ''X''" by simp
  from h xA xB no_match_hello_A no_match_hello_B match_CAPTION_X_A match_CAPTION_X_B
  show ?thesis by blast
qed

end
